theory Spec2Isabelle
  imports Main
begin

section \<open>Board model\<close>

text \<open>
  The game lives in two files: \<^verbatim>\<open>server.js\<close> (the room engine behind Socket.IO) and
  the browser script (the local engine and the computer opponent). Both keep the board as
  a JavaScript array of nine cells holding \<^verbatim>\<open>null\<close>, \<^verbatim>\<open>"X"\<close> or \<^verbatim>\<open>"O"\<close>.
  A cell is a \<open>mark option\<close> (\<open>None\<close> is \<^verbatim>\<open>null\<close>, \<open>Some MarkX\<close> is \<^verbatim>\<open>"X"\<close>,
  \<open>Some MarkO\<close> is \<^verbatim>\<open>"O"\<close>), a board a list of cells.
  Every board of the program is made by \<^verbatim>\<open>Array(9).fill(null)\<close> and written only at
  indices 0..8, so the theorems below speak about boards of length 9; on such a board every
  read \<open>board ! i\<close> made through the table of win-lines is in range.
\<close>

datatype mark = MarkX | MarkO

type_synonym cell = "mark option"
type_synonym board = "cell list"

text \<open>
  \<^verbatim>\<open>const winningCombinations = [[0,1,2],[3,4,5],[6,7,8],[0,3,6],[1,4,7],[2,5,8],[0,4,8],[2,4,6]]\<close>;
  the server holds the same table as the local constant \<^verbatim>\<open>wins\<close> of its
  \<^verbatim>\<open>checkWinner\<close>.
\<close>

definition winningCombinations :: "(nat \<times> nat \<times> nat) list" where
  "winningCombinations =
     [(0, 1, 2), (3, 4, 5), (6, 7, 8), (0, 3, 6), (1, 4, 7), (2, 5, 8), (0, 4, 8), (2, 4, 6)]"

text \<open>
  \<^verbatim>\<open>for (const [a, b, c] of wins) {
    if (board[a] && board[a] === board[b] && board[a] === board[c]) return board[a]; }
  return null;\<close>
  The loop is the recursion over the table; the first matching line decides.
\<close>

fun checkWinner_scan :: "(nat \<times> nat \<times> nat) list \<Rightarrow> board \<Rightarrow> mark option" where
  "checkWinner_scan [] board = None"
| "checkWinner_scan ((a, b, c) # rest) board =
     (if board ! a \<noteq> None \<and> board ! a = board ! b \<and> board ! a = board ! c
      then board ! a
      else checkWinner_scan rest board)"

definition checkWinner :: "board \<Rightarrow> mark option" where
  "checkWinner board = checkWinner_scan winningCombinations board"

text \<open>
  \<^verbatim>\<open>function determineWinner(player) {
    return winningCombinations.some((combo) =>
      combo.every((index) => currentGameBoard[index] === player)); }\<close>
  The board is the global \<^verbatim>\<open>currentGameBoard\<close>, passed explicitly here;
  \<open>lineFull\<close> is the inner callback \<^verbatim>\<open>combo.every(...)\<close> on one line.
\<close>

definition lineFull :: "board \<Rightarrow> mark \<Rightarrow> nat \<times> nat \<times> nat \<Rightarrow> bool" where
  "lineFull board player =
     (\<lambda>(a, b, c). board ! a = Some player \<and> board ! b = Some player \<and> board ! c = Some player)"

definition determineWinner :: "board \<Rightarrow> mark \<Rightarrow> bool" where
  "determineWinner board player = list_ex (lineFull board player) winningCombinations"

text \<open>\<^verbatim>\<open>mark === "X" ? "O" : "X"\<close>, the flip of the turn on the server and in the local
  engine, and \<^verbatim>\<open>minPlayer\<close> of the search.\<close>

definition otherMark :: "mark \<Rightarrow> mark" where
  "otherMark m = (if m = MarkX then MarkO else MarkX)"

text \<open>\<^verbatim>\<open>board.every((cell) => cell !== null)\<close>: \<^verbatim>\<open>isBoardFull(board)\<close>, and
  \<^verbatim>\<open>isGameOver()\<close> on the global board.\<close>

definition isBoardFull :: "board \<Rightarrow> bool" where
  "isBoardFull board = list_all (\<lambda>cell. cell \<noteq> None) board"

definition isGameOver :: "board \<Rightarrow> bool" where
  "isGameOver currentGameBoard = list_all (\<lambda>cell. cell \<noteq> None) currentGameBoard"

text \<open>The server's draw test inside \<^verbatim>\<open>makeMove\<close>:
  \<^verbatim>\<open>const isDraw = room.board.every((c) => c !== null) && !winner;\<close>\<close>

definition isDraw :: "board \<Rightarrow> bool" where
  "isDraw board = (list_all (\<lambda>c. c \<noteq> None) board \<and> checkWinner board = None)"


section \<open>The computer opponent: line scan and search\<close>

text \<open>
  \<^verbatim>\<open>function getEmptyIndices(board) {
    return board.map((value, index) => (value === null ? index : null))
                .filter((index) => index !== null); }\<close>
\<close>

definition getEmptyIndices :: "board \<Rightarrow> nat list" where
  "getEmptyIndices board =
     map the (filter (\<lambda>index. index \<noteq> None)
       (map (\<lambda>(index, v). if v = None then Some index else None) (enumerate 0 board)))"

text \<open>
  \<^verbatim>\<open>function findCriticalMove(targetPlayer, count) {
    for (let combination of winningCombinations) {
      let [a, b, c] = combination;
      let positions = [currentGameBoard[a], currentGameBoard[b], currentGameBoard[c]];
      let playerCount = positions.filter((position) => position === targetPlayer).length;
      let emptyCount = positions.filter((position) => position === null).length;
      if (playerCount === count && emptyCount === 1) {
        for (let i = 0; i < 3; i++) {
          if (currentGameBoard[combination[i]] === null) { return combination[i]; } } } }
    return null; }\<close>
  The global \<^verbatim>\<open>currentGameBoard\<close> is an argument here.
  \<open>criticalCell\<close> is the body of the outer loop on one line: the cell it returns, or
  \<open>None\<close> when the loop goes on to the next line (the inner loop returns the first empty
  cell of the line; were there none, the outer loop would go on as well).
\<close>

definition criticalCell :: "board \<Rightarrow> mark \<Rightarrow> nat \<Rightarrow> nat \<times> nat \<times> nat \<Rightarrow> nat option" where
  "criticalCell currentGameBoard targetPlayer count =
     (\<lambda>(a, b, c).
        let positions = [currentGameBoard ! a, currentGameBoard ! b, currentGameBoard ! c];
            playerCount = length (filter (\<lambda>position. position = Some targetPlayer) positions);
            emptyCount = length (filter (\<lambda>position. position = None) positions)
        in if playerCount = count \<and> emptyCount = 1
           then find (\<lambda>i. currentGameBoard ! i = None) [a, b, c]
           else None)"

fun findCriticalMove_scan :: "(nat \<times> nat \<times> nat) list \<Rightarrow> board \<Rightarrow> mark \<Rightarrow> nat \<Rightarrow> nat option" where
  "findCriticalMove_scan [] currentGameBoard targetPlayer count = None"
| "findCriticalMove_scan (combination # rest) currentGameBoard targetPlayer count =
     (case criticalCell currentGameBoard targetPlayer count combination of
        Some i \<Rightarrow> Some i
      | None \<Rightarrow> findCriticalMove_scan rest currentGameBoard targetPlayer count)"

definition findCriticalMove :: "board \<Rightarrow> mark \<Rightarrow> nat \<Rightarrow> nat option" where
  "findCriticalMove currentGameBoard targetPlayer count =
     findCriticalMove_scan winningCombinations currentGameBoard targetPlayer count"

subsection \<open>Minimax\<close>

text \<open>
  The search returns an object \<^verbatim>\<open>{ score }\<close> at a terminal board and
  \<^verbatim>\<open>{ index, score }\<close> otherwise: a pair of an optional index and a score. It writes
  the candidate mark into the board, calls itself, and writes \<^verbatim>\<open>null\<close> back; the model
  passes the updated copy. A call that came back \<^verbatim>\<open>undefined\<close> would make
  \<^verbatim>\<open>result.score\<close> throw: \<open>None\<close> stands for both.

  \<^verbatim>\<open>for (let i = 0; i < emptyIndices.length; i++) {
    const move = {}; move.index = emptyIndices[i];
    board[emptyIndices[i]] = isMaximizing ? maxPlayer : minPlayer;
    const result = minimax(board, depth + 1, !isMaximizing, maxPlayer);
    move.score = result.score;
    board[emptyIndices[i]] = null;
    moves.push(move); }\<close>
\<close>

type_synonym move = "nat option \<times> int"

fun pushMoves :: "(nat \<times> move option) list \<Rightarrow> move list option" where
  "pushMoves [] = Some []"
| "pushMoves ((index, None) # rest) = None"
| "pushMoves ((index, Some result) # rest) =
     (case pushMoves rest of
        None \<Rightarrow> None
      | Some moves \<Rightarrow> Some ((Some index, snd result) # moves))"

text \<open>
  \<^verbatim>\<open>let bestScore = -Infinity;
  for (let i = 0; i < moves.length; i++) {
    if (moves[i].score > bestScore) { bestScore = moves[i].score; bestMove = i; } }\<close>
  and the same with \<^verbatim>\<open>Infinity\<close> and \<^verbatim>\<open><\<close> for the minimizing side. The
  arguments are the moves not yet visited, the counter \<open>i\<close>, \<open>bestScore\<close> (\<open>None\<close>
  is the infinity it starts from, which every score beats) and \<open>bestMove\<close> (\<open>None\<close>
  is \<^verbatim>\<open>undefined\<close>).
\<close>

fun bestMax :: "move list \<Rightarrow> nat \<Rightarrow> int option \<Rightarrow> nat option \<Rightarrow> nat option" where
  "bestMax [] i bestScore bestMove = bestMove"
| "bestMax (m # moves) i bestScore bestMove =
     (if (case bestScore of None \<Rightarrow> True | Some best \<Rightarrow> snd m > best)
      then bestMax moves (i + 1) (Some (snd m)) (Some i)
      else bestMax moves (i + 1) bestScore bestMove)"

fun bestMin :: "move list \<Rightarrow> nat \<Rightarrow> int option \<Rightarrow> nat option \<Rightarrow> nat option" where
  "bestMin [] i bestScore bestMove = bestMove"
| "bestMin (m # moves) i bestScore bestMove =
     (if (case bestScore of None \<Rightarrow> True | Some best \<Rightarrow> snd m < best)
      then bestMin moves (i + 1) (Some (snd m)) (Some i)
      else bestMin moves (i + 1) bestScore bestMove)"

text \<open>
  \<^verbatim>\<open>function minimax(board, depth, isMaximizing, maxPlayer = "O") {
    const minPlayer = maxPlayer === "X" ? "O" : "X";
    const winner = checkWinner(board);
    if (winner === maxPlayer) return { score: 10 - depth };
    if (winner === minPlayer) return { score: depth - 10 };
    if (isBoardFull(board)) return { score: 0 };
    const moves = []; const emptyIndices = getEmptyIndices(board);
    ... the loop over emptyIndices ...
    let bestMove; ... the loop over moves ...
    return moves[bestMove]; }\<close>
  Every recursive call fills one empty cell, which is the measure of termination.
\<close>

function minimax :: "board \<Rightarrow> int \<Rightarrow> bool \<Rightarrow> mark \<Rightarrow> move option" where
  "minimax board depth isMaximizing maxPlayer =
     (let minPlayer = (if maxPlayer = MarkX then MarkO else MarkX);
          winner = checkWinner board
      in if winner = Some maxPlayer then Some (None, 10 - depth)
         else if winner = Some minPlayer then Some (None, depth - 10)
         else if isBoardFull board then Some (None, 0)
         else
           (case pushMoves
                   (map (\<lambda>index.
                           (index,
                            minimax (board[index := Some (if isMaximizing then maxPlayer else minPlayer)])
                              (depth + 1) (\<not> isMaximizing) maxPlayer))
                      (getEmptyIndices board)) of
              None \<Rightarrow> None
            | Some moves \<Rightarrow>
                (case (if isMaximizing then bestMax moves 0 None None
                       else bestMin moves 0 None None) of
                   None \<Rightarrow> None
                 | Some bestMove \<Rightarrow> Some (moves ! bestMove))))"
  by pat_completeness auto
termination
proof (relation "measure (\<lambda>(board, depth, isMaximizing, maxPlayer). length (filter (\<lambda>cell. cell = None) board))")
  show "wf (measure (\<lambda>(board, depth, isMaximizing, maxPlayer). length (filter (\<lambda>cell. cell = None) board)))"
    by simp
next
  fix board :: board and depth :: int and isMaximizing :: bool and maxPlayer minPlayer :: mark
    and winner :: "mark option" and index :: nat
  assume "index \<in> set (getEmptyIndices board)"
  then have "(index, None) \<in> set (enumerate 0 board)"
    by (auto simp: getEmptyIndices_def split: if_splits)
  then have idx: "index < length board" "board ! index = None"
    by (auto simp: in_set_enumerate_eq)
  define filled where "filled = Some (if isMaximizing then maxPlayer else minPlayer)"
  define before where "before = take index board"
  define after where "after = drop (Suc index) board"
  have "board = before @ board ! index # after"
    unfolding before_def after_def using idx(1) by (rule id_take_nth_drop)
  then have old: "board = before @ None # after"
    by (simp only: idx(2))
  have new: "board[index := filled] = before @ filled # after"
    unfolding before_def after_def using idx(1) by (rule upd_conv_take_nth_drop)
  have "length (filter (\<lambda>cell. cell = None) (before @ filled # after))
      < length (filter (\<lambda>cell. cell = None) (before @ None # after))"
    by (simp add: filled_def)
  then have "length (filter (\<lambda>cell. cell = None) (board[index := filled]))
      < length (filter (\<lambda>cell. cell = None) board)"
    using old new by simp
  then have "length (filter (\<lambda>cell. cell = None)
        (board[index := Some (if isMaximizing then maxPlayer else minPlayer)]))
      < length (filter (\<lambda>cell. cell = None) board)"
    by (simp only: filled_def)
  then show "((board[index := Some (if isMaximizing then maxPlayer else minPlayer)], depth + 1,
        \<not> isMaximizing, maxPlayer), board, depth, isMaximizing, maxPlayer)
      \<in> measure (\<lambda>(board, depth, isMaximizing, maxPlayer). length (filter (\<lambda>cell. cell = None) board))"
    by simp
qed


text \<open>The defining equation of the search unfolds itself; it is used by hand only.\<close>

declare minimax.simps [simp del]

section \<open>The room engine (server.js)\<close>

text \<open>
  A socket is known by its id; a lobby by the string the client sent. The counters are
  JavaScript numbers, exact on every value a process can count up to, modelled as \<open>nat\<close>.
  \<^verbatim>\<open>createdAt\<close> (a timestamp nothing reads) is left out of the room.
\<close>

type_synonym socketId = nat
type_synonym lobbyName = string

record stats =
  xWins :: nat
  oWins :: nat
  draws :: nat
  totalGames :: nat

record room =
  board :: board
  currentPlayer :: mark
  isActive :: bool
  stats :: stats
  players :: "socketId list"

text \<open>\<^verbatim>\<open>socket.data.lobbyId\<close> and \<^verbatim>\<open>socket.data.mark\<close>; \<open>None\<close> is \<^verbatim>\<open>undefined\<close>.\<close>

record socketData =
  dataLobbyId :: "lobbyName option"
  dataMark :: "mark option"

text \<open>
  What the server emits: \<^verbatim>\<open>socket.emit\<close> (to one socket), \<^verbatim>\<open>socket.to(lobbyId).emit\<close>
  (to the others of the lobby) and \<^verbatim>\<open>io.to(lobbyId).emit\<close> (to the whole lobby). A
  \<^verbatim>\<open>roomState\<close> carries the room, the lobby id and, for the joiner only, \<^verbatim>\<open>yourMark\<close>.
\<close>

datatype message =
    ErrorMsg string
  | RoomState room lobbyName "mark option"
  | PlayerJoined socketId

datatype emit =
    ToSocket socketId message
  | ToOthers socketId lobbyName message
  | ToLobby lobbyName message

text \<open>
  The state of the process: the store \<^verbatim>\<open>rooms\<close> (an object without prototype, so a map),
  the membership \<^verbatim>\<open>io.sockets.adapter.rooms\<close> that \<^verbatim>\<open>socket.join\<close> fills (only the
  entries of lobbies are modelled, a socket is listed once), the data of every socket, and
  the messages emitted so far.
\<close>

record server =
  rooms :: "lobbyName \<Rightarrow> room option"
  adapterRooms :: "lobbyName \<Rightarrow> socketId list"
  socketsData :: "socketId \<Rightarrow> socketData"
  emitted :: "emit list"

definition initialServer :: server where
  "initialServer =
     \<lparr>rooms = (\<lambda>l. None), adapterRooms = (\<lambda>l. []),
      socketsData = (\<lambda>sid. \<lparr>dataLobbyId = None, dataMark = None\<rparr>), emitted = []\<rparr>"

text \<open>
  \<^verbatim>\<open>function newRoomState() { return { board: Array(9).fill(null), currentPlayer: "X",
    isActive: true, stats: { xWins: 0, oWins: 0, draws: 0, totalGames: 0 }, createdAt: Date.now() }; }\<close>
  with the \<^verbatim>\<open>players: new Set()\<close> that \<^verbatim>\<open>getRoom\<close> adds.
\<close>

definition newRoomState :: room where
  "newRoomState =
     \<lparr>board = replicate 9 None, currentPlayer = MarkX, isActive = True,
      stats = \<lparr>xWins = 0, oWins = 0, draws = 0, totalGames = 0\<rparr>, players = []\<rparr>"

text \<open>
  \<^verbatim>\<open>function getRoom(lobbyId) {
    if (!rooms[lobbyId]) rooms[lobbyId] = { ...newRoomState(), players: new Set() };
    return rooms[lobbyId]; }\<close>
  The room is a reference into the store; the model returns the room and the store, and a
  handler writes the room back after changing it.
\<close>

definition getRoom :: "server \<Rightarrow> lobbyName \<Rightarrow> room \<times> server" where
  "getRoom s lobbyId =
     (case rooms s lobbyId of
        Some r \<Rightarrow> (r, s)
      | None \<Rightarrow> (newRoomState, s\<lparr>rooms := (rooms s)(lobbyId \<mapsto> newRoomState)\<rparr>))"

text \<open>\<^verbatim>\<open>String.prototype.trim\<close>, on the ASCII white space (tab, line feed, vertical tab,
  form feed, carriage return, space).\<close>

definition isWhiteSpace :: "char \<Rightarrow> bool" where
  "isWhiteSpace ch = (ch \<in> set [CHR 0x09, CHR 0x0A, CHR 0x0B, CHR 0x0C, CHR 0x0D, CHR 0x20])"

definition trim :: "string \<Rightarrow> string" where
  "trim str = rev (dropWhile isWhiteSpace (rev (dropWhile isWhiteSpace str)))"

text \<open>
  \<^verbatim>\<open>socket.on("joinLobby", ({ lobbyId, requestedMark }) => {
    lobbyId = (lobbyId || "").trim();
    if (!lobbyId) return socket.emit("errorMsg", "Lobby ID required.");
    const room = getRoom(lobbyId);
    socket.join(lobbyId);
    room.players.add(socket.id);
    let assignedMark = "X";
    const socketsInRoom = io.sockets.adapter.rooms.get(lobbyId) || new Set();
    if (socketsInRoom.size >= 2) assignedMark = "O";
    if (requestedMark && (requestedMark === "X" || requestedMark === "O")) {
      assignedMark = requestedMark; }
    socket.data.lobbyId = lobbyId;
    socket.data.mark = assignedMark;
    socket.emit("roomState", { ...room, yourMark: assignedMark, lobbyId });
    socket.to(lobbyId).emit("playerJoined", { playerId: socket.id });
    if ((io.sockets.adapter.rooms.get(lobbyId) || new Set()).size > 2) {
      socket.emit("errorMsg", "Room is full (2 players). Spectators not allowed."); } });\<close>
  The payload is an object; its \<^verbatim>\<open>lobbyId\<close> is a string or missing (\<open>None\<close>), its
  \<^verbatim>\<open>requestedMark\<close> a string or missing.
\<close>

definition joinLobby :: "server \<Rightarrow> socketId \<Rightarrow> string option \<Rightarrow> string option \<Rightarrow> server" where
  "joinLobby s sid lobbyIdArg requestedMark =
     (let lobbyId = trim (case lobbyIdArg of None \<Rightarrow> [] | Some l \<Rightarrow> l) in
      if lobbyId = [] then s\<lparr>emitted := emitted s @ [ToSocket sid (ErrorMsg ''Lobby ID required.'')]\<rparr>
      else
        (let (room0, s1) = getRoom s lobbyId;
             s2 = s1\<lparr>adapterRooms :=
                    (adapterRooms s1)(lobbyId := List.insert sid (adapterRooms s1 lobbyId))\<rparr>;
             room = room0\<lparr>players := List.insert sid (players room0)\<rparr>;
             s3 = s2\<lparr>rooms := (rooms s2)(lobbyId \<mapsto> room)\<rparr>;
             socketsInRoom = adapterRooms s3 lobbyId;
             assignedMark0 = (if length socketsInRoom \<ge> 2 then MarkO else MarkX);
             assignedMark =
               (if requestedMark = Some ''X'' then MarkX
                else if requestedMark = Some ''O'' then MarkO
                else assignedMark0);
             s4 = s3\<lparr>socketsData := (socketsData s3)
                    (sid := \<lparr>dataLobbyId = Some lobbyId, dataMark = Some assignedMark\<rparr>)\<rparr>;
             out1 = [ToSocket sid (RoomState room lobbyId (Some assignedMark)),
                     ToOthers sid lobbyId (PlayerJoined sid)];
             out2 = (if length (adapterRooms s4 lobbyId) > 2
                     then [ToSocket sid (ErrorMsg ''Room is full (2 players). Spectators not allowed.'')]
                     else [])
         in s4\<lparr>emitted := emitted s4 @ out1 @ out2\<rparr>))"

text \<open>
  The accepted move, lines 106 to 122 of the handler:
  \<^verbatim>\<open>room.board[index] = mark;
  const winner = checkWinner(room.board);
  const isDraw = room.board.every((c) => c !== null) && !winner;
  if (winner) { room.isActive = false;
    if (winner === "X") room.stats.xWins += 1; else room.stats.oWins += 1;
    room.stats.totalGames += 1;
  } else if (isDraw) { room.isActive = false; room.stats.draws += 1; room.stats.totalGames += 1;
  } else { room.currentPlayer = mark === "X" ? "O" : "X"; }\<close>
\<close>

definition placeMark :: "room \<Rightarrow> nat \<Rightarrow> mark \<Rightarrow> room" where
  "placeMark room0 index mark =
     (let room = room0\<lparr>board := (board room0)[index := Some mark]\<rparr>;
          winner = checkWinner (board room)
      in if winner \<noteq> None then
           room\<lparr>isActive := False,
                stats := (if winner = Some MarkX
                          then (stats room)\<lparr>xWins := xWins (stats room) + 1,
                                  totalGames := totalGames (stats room) + 1\<rparr>
                          else (stats room)\<lparr>oWins := oWins (stats room) + 1,
                                  totalGames := totalGames (stats room) + 1\<rparr>)\<rparr>
         else if isDraw (board room) then
           room\<lparr>isActive := False,
                stats := (stats room)\<lparr>draws := draws (stats room) + 1,
                           totalGames := totalGames (stats room) + 1\<rparr>\<rparr>
         else room\<lparr>currentPlayer := (if mark = MarkX then MarkO else MarkX)\<rparr>)"

text \<open>The \<^verbatim>\<open>index\<close> of a \<^verbatim>\<open>makeMove\<close> payload: an integer, or any other value
  (\<^verbatim>\<open>Number.isInteger(index)\<close> is false).\<close>

datatype indexArg = IntIndex int | NotInteger

text \<open>
  \<^verbatim>\<open>socket.on("makeMove", ({ index }) => {
    const lobbyId = socket.data.lobbyId;
    if (!lobbyId) return;
    const room = getRoom(lobbyId);
    if (!room.isActive) return;
    const mark = socket.data.mark;
    if (!Number.isInteger(index) || index < 0 || index > 8) return;
    if (room.board[index]) return;
    if (room.currentPlayer !== mark) return;
    ... the accepted move ...
    io.to(lobbyId).emit("roomState", { ...room, lobbyId }); });\<close>
  A socket without a mark (\<^verbatim>\<open>undefined\<close>) never equals \<^verbatim>\<open>room.currentPlayer\<close>.
  \<open>makeMove\<close> is the body of the listener, run on the \<^verbatim>\<open>index\<close> that the parameter
  pattern \<^verbatim>\<open>{ index }\<close> has bound; the binding itself is \<open>onMakeMove\<close> below.
\<close>

definition makeMove :: "server \<Rightarrow> socketId \<Rightarrow> indexArg \<Rightarrow> server" where
  "makeMove s sid index =
     (case dataLobbyId (socketsData s sid) of
        None \<Rightarrow> s
      | Some lobbyId \<Rightarrow>
          (let (room, s1) = getRoom s lobbyId in
           if \<not> isActive room then s1
           else
             (case index of
                NotInteger \<Rightarrow> s1
              | IntIndex i \<Rightarrow>
                  if i < 0 \<or> i > 8 then s1
                  else if board room ! nat i \<noteq> None then s1
                  else
                    (case dataMark (socketsData s sid) of
                       None \<Rightarrow> s1
                     | Some mark \<Rightarrow>
                         if currentPlayer room \<noteq> mark then s1
                         else
                           (let room' = placeMark room (nat i) mark
                            in s1\<lparr>rooms := (rooms s1)(lobbyId \<mapsto> room'),
                                   emitted := emitted s1 @
                                     [ToLobby lobbyId (RoomState room' lobbyId None)]\<rparr>)))))"

text \<open>
  The listener as socket.io calls it, with the payload of the request as its argument. The
  parameter is the pattern \<^verbatim>\<open>{ index }\<close>: on a request that carries no payload
  (\<^verbatim>\<open>socket.emit("makeMove")\<close>, the argument is \<^verbatim>\<open>undefined\<close>) or the payload
  \<^verbatim>\<open>null\<close>, binding the pattern throws a \<^verbatim>\<open>TypeError\<close> before the first statement
  of the body, so before every guard; server.js has no \<^verbatim>\<open>try\<close> and no handler for
  uncaught exceptions, so the exception leaves the listener. That payload is \<open>None\<close> here.
  Every other payload binds \<^verbatim>\<open>index\<close>, to \<^verbatim>\<open>undefined\<close> (\<open>NotInteger\<close>) when the
  payload has no such property, and the body runs.
\<close>

datatype jsError = TypeError

definition onMakeMove :: "server \<Rightarrow> socketId \<Rightarrow> indexArg option \<Rightarrow> jsError + server" where
  "onMakeMove s sid payload =
     (case payload of
        None \<Rightarrow> Inl TypeError
      | Some index \<Rightarrow> Inr (makeMove s sid index))"

text \<open>
  \<^verbatim>\<open>socket.on("newGame", () => {
    const lobbyId = socket.data.lobbyId;
    if (!lobbyId) return;
    const room = getRoom(lobbyId);
    room.board = Array(9).fill(null); room.currentPlayer = "X"; room.isActive = true;
    io.to(lobbyId).emit("roomState", { ...room, lobbyId }); });\<close>
\<close>

definition newGame :: "server \<Rightarrow> socketId \<Rightarrow> server" where
  "newGame s sid =
     (case dataLobbyId (socketsData s sid) of
        None \<Rightarrow> s
      | Some lobbyId \<Rightarrow>
          (let (room, s1) = getRoom s lobbyId;
               room' = room\<lparr>board := replicate 9 None, currentPlayer := MarkX, isActive := True\<rparr>
           in s1\<lparr>rooms := (rooms s1)(lobbyId \<mapsto> room'),
                  emitted := emitted s1 @ [ToLobby lobbyId (RoomState room' lobbyId None)]\<rparr>))"

text \<open>
  \<^verbatim>\<open>socket.on("resetStats", () => {
    const lobbyId = socket.data.lobbyId;
    if (!lobbyId) return;
    const room = getRoom(lobbyId);
    room.stats = { xWins: 0, oWins: 0, draws: 0, totalGames: 0 };
    io.to(lobbyId).emit("roomState", { ...room, lobbyId }); });\<close>
\<close>

definition resetStats :: "server \<Rightarrow> socketId \<Rightarrow> server" where
  "resetStats s sid =
     (case dataLobbyId (socketsData s sid) of
        None \<Rightarrow> s
      | Some lobbyId \<Rightarrow>
          (let (room, s1) = getRoom s lobbyId;
               room' = room\<lparr>stats := \<lparr>xWins = 0, oWins = 0, draws = 0, totalGames = 0\<rparr>\<rparr>
           in s1\<lparr>rooms := (rooms s1)(lobbyId \<mapsto> room'),
                  emitted := emitted s1 @ [ToLobby lobbyId (RoomState room' lobbyId None)]\<rparr>))"

text \<open>The requests a client can send, each with a payload object as the script of the page
  sends it, and a run of the server over a sequence of them.\<close>

datatype request =
    JoinLobby socketId "string option" "string option"
  | MakeMove socketId indexArg
  | NewGame socketId
  | ResetStats socketId

fun handle :: "server \<Rightarrow> request \<Rightarrow> server" where
  "handle s (JoinLobby sid lobbyIdArg requestedMark) = joinLobby s sid lobbyIdArg requestedMark"
| "handle s (MakeMove sid index) = makeMove s sid index"
| "handle s (NewGame sid) = newGame s sid"
| "handle s (ResetStats sid) = resetStats s sid"

definition serve :: "request list \<Rightarrow> server" where
  "serve requests = foldl handle initialServer requests"


section \<open>The local engine (the browser script)\<close>

text \<open>
  The script keeps its state in global variables; the model gathers them in one record that
  every handler takes and returns. \<^verbatim>\<open>currentPlayer\<close> and the counters \<^verbatim>\<open>draws\<close>,
  \<^verbatim>\<open>totalGames\<close> carry the prefix \<open>local\<close> here, the room having fields of the same
  names, and the global \<^verbatim>\<open>gameStatistics\<close> is the field \<open>statistics\<close>. Of the page, the
  model keeps what decides whether a click reaches the handler:
  \<open>clicksEnabled\<close> says that the cells carry the listener \<^verbatim>\<open>handlePlayerMove\<close>
  (\<^verbatim>\<open>enablePlayerClicks\<close>, \<^verbatim>\<open>disablePlayerClicks\<close>). \<open>socketOpen\<close> is
  \<^verbatim>\<open>socket !== null\<close>, and \<open>sent\<close> lists the indices sent by
  \<^verbatim>\<open>socket.emit("makeMove", { index: Number(index) })\<close>: the number of the cell, or
  \<^verbatim>\<open>NaN\<close> (\<open>NotInteger\<close>) when \<^verbatim>\<open>index\<close> is \<^verbatim>\<open>undefined\<close>.
\<close>

datatype mode = Pvc | Pvp

datatype level = Easy | Medium | Hard

record gameStatistics =
  player :: nat
  computer :: nat
  playerX :: nat
  playerO :: nat
  localDraws :: nat
  localTotalGames :: nat

record client =
  gameMode :: mode
  localCurrentPlayer :: mark
  computerStartsFirst :: bool
  playerXStartsFirst :: bool
  difficulty :: level
  socketOpen :: bool
  onlineMode :: bool
  myMark :: "mark option"
  currentGameBoard :: board
  isGameCurrentlyActive :: bool
  isProcessingMove :: bool
  statistics :: gameStatistics
  clicksEnabled :: bool
  sent :: "indexArg list"


text \<open>The globals as the script initialises them, before its first
  \<^verbatim>\<open>creategameBoard()\<close>.\<close>

definition initialClient :: client where
  "initialClient =
     \<lparr>gameMode = Pvc, localCurrentPlayer = MarkX, computerStartsFirst = False,
      playerXStartsFirst = True, difficulty = Medium, socketOpen = False, onlineMode = False,
      myMark = None, currentGameBoard = replicate 9 None, isGameCurrentlyActive = True,
      isProcessingMove = False,
      statistics = \<lparr>player = 0, computer = 0, playerX = 0, playerO = 0,
                      localDraws = 0, localTotalGames = 0\<rparr>,
      clicksEnabled = False, sent = []\<rparr>"

text \<open>
  \<^verbatim>\<open>function creategameBoard() {
    gameBoard.innerHTML = "";
    currentGameBoard = Array(9).fill(null);
    isGameCurrentlyActive = true; isProcessingMove = false; currentPlayer = "X";
    if (gameMode === "pvp") {
      currentPlayer = onlineMode ? "X" : playerXStartsFirst ? "X" : "O"; }
    for (let i = 0; i < 9; i++) { ... new cell i ...
      if (gameMode === "pvp" || (gameMode === "pvc" && !computerStartsFirst)) {
        singleCell.addEventListener("click", handlePlayerMove); } }
    ...
    if (gameMode === "pvp") {
      if (onlineMode) { ... disablePlayerClicks(); } else { ... enablePlayerClicks(); }
    } else {
      if (computerStartsFirst) { ... setTimeout(() => { handleComputerMove(); }, 1000); }
      else { ... enablePlayerClicks(); } } }\<close>
  The function returns the new state; whether it has scheduled the computer's first move
  is \<open>computerOpens\<close> of the state.
\<close>

definition creategameBoard :: "client \<Rightarrow> client" where
  "creategameBoard s =
     s\<lparr>currentGameBoard := replicate 9 None,
       isGameCurrentlyActive := True,
       isProcessingMove := False,
       localCurrentPlayer :=
         (if gameMode s = Pvp
          then (if onlineMode s then MarkX else if playerXStartsFirst s then MarkX else MarkO)
          else MarkX),
       clicksEnabled :=
         (if gameMode s = Pvp then \<not> onlineMode s else \<not> computerStartsFirst s)\<rparr>"

definition computerOpens :: "client \<Rightarrow> bool" where
  "computerOpens s = (gameMode s \<noteq> Pvp \<and> computerStartsFirst s)"

text \<open>
  \<^verbatim>\<open>function handlePlayerMove(click) {
    const index = click.target.dataset.index;
    if (!isGameCurrentlyActive || currentGameBoard[index] || isProcessingMove) return;
    if (onlineMode) {
      if (currentPlayer !== myMark || !socket) return;
      isProcessingMove = true; disablePlayerClicks();
      socket.emit("makeMove", { index: Number(index) });
      return; }
    isProcessingMove = true; disablePlayerClicks();
    const playerMark = gameMode === "pvp" ? currentPlayer : "X";
    currentGameBoard[index] = playerMark;
    drawMarkOnBoard(index, playerMark);
    setTimeout(() => { ... }, 1000); }\<close>
  The result is the new state and, when the timer was set, the mark its callback will test.
  Here the target of the click is one of the nine cells, and \<open>index\<close> its
  \<^verbatim>\<open>dataset.index\<close>, one of 0..8; a click whose target is an element inside a cell is
  \<open>handlePlayerMove_noIndex\<close> below.
\<close>

definition handlePlayerMove :: "client \<Rightarrow> nat \<Rightarrow> client \<times> mark option" where
  "handlePlayerMove s index =
     (if \<not> isGameCurrentlyActive s \<or> currentGameBoard s ! index \<noteq> None \<or> isProcessingMove s
      then (s, None)
      else if onlineMode s then
        (if Some (localCurrentPlayer s) \<noteq> myMark s \<or> \<not> socketOpen s then (s, None)
         else (s\<lparr>isProcessingMove := True, clicksEnabled := False,
                 sent := sent s @ [IntIndex (int index)]\<rparr>, None))
      else
        (let playerMark = (if gameMode s = Pvp then localCurrentPlayer s else MarkX)
         in (s\<lparr>isProcessingMove := True, clicksEnabled := False,
               currentGameBoard := (currentGameBoard s)[index := Some playerMark]\<rparr>,
             Some playerMark)))"

text \<open>
  The same handler on a click whose target is an element inside a cell: the
  \<^verbatim>\<open>span.mark\<close> that \<^verbatim>\<open>drawMarkOnBoard\<close> and \<^verbatim>\<open>renderFromRoomState\<close> put into an
  occupied cell, or the \<^verbatim>\<open>div.scanning\<close> of a move being drawn. The listener is on the
  cell and the click bubbles to it, but \<^verbatim>\<open>click.target\<close> is the inner element, which
  carries no \<^verbatim>\<open>data-index\<close>: \<^verbatim>\<open>index\<close> is \<^verbatim>\<open>undefined\<close>. (The script sets no
  style; the page's style sheet is taken not to switch off the pointer events of these
  elements.) Then \<^verbatim>\<open>currentGameBoard[index]\<close> reads the property named
  \<^verbatim>\<open>"undefined"\<close> of the array, which is \<^verbatim>\<open>undefined\<close>, so the test of the
  occupied cell lets the click pass. Online the handler sends
  \<^verbatim>\<open>{ index: Number(undefined) }\<close>, that is \<^verbatim>\<open>NaN\<close>. Offline it sets
  \<^verbatim>\<open>isProcessingMove\<close>, removes the listeners, writes the mark into the property
  \<^verbatim>\<open>"undefined"\<close> of the array (no cell changes, and \<^verbatim>\<open>every\<close> and \<^verbatim>\<open>map\<close>
  visit the nine cells only), and calls \<^verbatim>\<open>drawMarkOnBoard(undefined, playerMark)\<close>,
  where \<^verbatim>\<open>gameBoard.children[undefined]\<close> is \<^verbatim>\<open>undefined\<close> and
  \<^verbatim>\<open>targetCell.querySelector\<close> throws a \<^verbatim>\<open>TypeError\<close>: the handler ends there, no
  timer is set, and the assignments made so far stay. The array is taken to carry no
  property \<^verbatim>\<open>"undefined"\<close> when the handler starts: only the write above makes one,
  and \<^verbatim>\<open>creategameBoard\<close> starts every game with a new array.
  The result is the new state and the exception, if one was thrown.
\<close>

definition handlePlayerMove_noIndex :: "client \<Rightarrow> client \<times> jsError option" where
  "handlePlayerMove_noIndex s =
     (if \<not> isGameCurrentlyActive s \<or> isProcessingMove s then (s, None)
      else if onlineMode s then
        (if Some (localCurrentPlayer s) \<noteq> myMark s \<or> \<not> socketOpen s then (s, None)
         else (s\<lparr>isProcessingMove := True, clicksEnabled := False,
                 sent := sent s @ [NotInteger]\<rparr>, None))
      else (s\<lparr>isProcessingMove := True, clicksEnabled := False\<rparr>, Some TypeError))"

text \<open>
  The callback of that timer:
  \<^verbatim>\<open>if (determineWinner(playerMark)) {
    if (gameMode === "pvp") {
      if (playerMark === "X") { gameStatistics.playerX++; } else { gameStatistics.playerO++; }
    } else { gameStatistics.player++; }
    gameStatistics.totalGames++; isGameCurrentlyActive = false; updateStatistics(); return; }
  if (isGameOver()) {
    gameStatistics.draws++; gameStatistics.totalGames++; isGameCurrentlyActive = false;
    updateStatistics(); return; }
  if (gameMode === "pvp") {
    currentPlayer = currentPlayer === "X" ? "O" : "X";
    isProcessingMove = false; enablePlayerClicks();
  } else { setTimeout(handleComputerMove, 500); }\<close>
  The result is the new state and whether \<^verbatim>\<open>handleComputerMove\<close> was scheduled.
\<close>

definition handlePlayerMove_timeout :: "mark \<Rightarrow> client \<Rightarrow> client \<times> bool" where
  "handlePlayerMove_timeout playerMark s =
     (if determineWinner (currentGameBoard s) playerMark then
        (s\<lparr>statistics :=
             (if gameMode s = Pvp then
                (if playerMark = MarkX
                 then (statistics s)\<lparr>playerX := playerX (statistics s) + 1,
                         localTotalGames := localTotalGames (statistics s) + 1\<rparr>
                 else (statistics s)\<lparr>playerO := playerO (statistics s) + 1,
                         localTotalGames := localTotalGames (statistics s) + 1\<rparr>)
              else (statistics s)\<lparr>player := player (statistics s) + 1,
                      localTotalGames := localTotalGames (statistics s) + 1\<rparr>),
           isGameCurrentlyActive := False\<rparr>, False)
      else if isGameOver (currentGameBoard s) then
        (s\<lparr>statistics := (statistics s)\<lparr>localDraws := localDraws (statistics s) + 1,
                              localTotalGames := localTotalGames (statistics s) + 1\<rparr>,
           isGameCurrentlyActive := False\<rparr>, False)
      else if gameMode s = Pvp then
        (s\<lparr>localCurrentPlayer := (if localCurrentPlayer s = MarkX then MarkO else MarkX),
           isProcessingMove := False, clicksEnabled := True\<rparr>, False)
      else (s, True))"

text \<open>
  The choice of \<^verbatim>\<open>handleComputerMove\<close>. \<^verbatim>\<open>xs[Math.floor(Math.random() * xs.length)]\<close>
  is some element of a non-empty array, the one at \<open>rnd mod length xs\<close> for a number
  \<open>rnd\<close> the caller supplies, and \<^verbatim>\<open>undefined\<close> (\<open>None\<close>) on an empty one.
\<close>

definition randomElement :: "nat list \<Rightarrow> nat \<Rightarrow> nat option" where
  "randomElement xs rnd = (if xs = [] then None else Some (xs ! (rnd mod length xs)))"

text \<open>
  \<^verbatim>\<open>if (difficulty === "easy") {
    moveIndex = emptyIndices[Math.floor(Math.random() * emptyIndices.length)];
  } else if (difficulty === "medium") {
    moveIndex = findCriticalMove("O", 2);
    if (moveIndex === null) { moveIndex = findCriticalMove("X", 2); }
    if (moveIndex === null) {
      const center = 4; const corners = [0, 2, 6, 8]; const sides = [1, 3, 5, 7];
      if (currentGameBoard[center] === null) { moveIndex = center; }
      else {
        const freeCorners = corners.filter((i) => currentGameBoard[i] === null);
        if (freeCorners.length > 0) {
          moveIndex = freeCorners[Math.floor(Math.random() * freeCorners.length)];
        } else {
          const freeSides = sides.filter((i) => currentGameBoard[i] === null);
          moveIndex = freeSides[Math.floor(Math.random() * freeSides.length)]; } } }
  } else if (difficulty === "hard") {
    const result = minimax(currentGameBoard, 0, true, "O");
    moveIndex = result.index; }\<close>
\<close>

definition chooseMove :: "level \<Rightarrow> board \<Rightarrow> nat \<Rightarrow> nat option" where
  "chooseMove lvl b rnd =
     (case lvl of
        Easy \<Rightarrow> randomElement (getEmptyIndices b) rnd
      | Medium \<Rightarrow>
          (case findCriticalMove b MarkO 2 of
             Some moveIndex \<Rightarrow> Some moveIndex
           | None \<Rightarrow>
               (case findCriticalMove b MarkX 2 of
                  Some moveIndex \<Rightarrow> Some moveIndex
                | None \<Rightarrow>
                    if b ! 4 = None then Some 4
                    else
                      (let freeCorners = filter (\<lambda>i. b ! i = None) [0, 2, 6, 8]
                       in if length freeCorners > 0 then randomElement freeCorners rnd
                          else randomElement (filter (\<lambda>i. b ! i = None) [1, 3, 5, 7]) rnd)))
      | Hard \<Rightarrow>
          (case minimax b 0 True MarkO of
             None \<Rightarrow> None
           | Some result \<Rightarrow> fst result))"

text \<open>
  \<^verbatim>\<open>function handleComputerMove() {
    if (onlineMode) return;
    if (!isGameCurrentlyActive) return;
    const emptyIndices = getEmptyIndices(currentGameBoard);
    if (emptyIndices.length === 0) return;
    let moveIndex = null;
    ... the choice ...
    currentGameBoard[moveIndex] = "O";
    drawMarkOnBoard(moveIndex, "O");
    setTimeout(() => { ... }, 1000); }\<close>
  The result is \<open>None\<close> when the handler returns before setting its timer. With an
  undefined \<^verbatim>\<open>moveIndex\<close> no cell is written and \<^verbatim>\<open>drawMarkOnBoard\<close> throws on the
  missing cell, so the timer is not set either.
\<close>

definition handleComputerMove :: "nat \<Rightarrow> client \<Rightarrow> client option" where
  "handleComputerMove rnd s =
     (if onlineMode s then None
      else if \<not> isGameCurrentlyActive s then None
      else if getEmptyIndices (currentGameBoard s) = [] then None
      else
        (case chooseMove (difficulty s) (currentGameBoard s) rnd of
           None \<Rightarrow> None
         | Some moveIndex \<Rightarrow>
             Some (s\<lparr>currentGameBoard := (currentGameBoard s)[moveIndex := Some MarkO]\<rparr>)))"

text \<open>
  The callback of its timer:
  \<^verbatim>\<open>if (determineWinner("O")) {
    gameStatistics.computer++; gameStatistics.totalGames++;
    isGameCurrentlyActive = false; updateStatistics(); return; }
  if (isGameOver()) {
    gameStatistics.draws++; gameStatistics.totalGames++;
    isGameCurrentlyActive = false; updateStatistics(); return; }
  gameStatus.textContent = "Your turn!"; isProcessingMove = false; enablePlayerClicks();\<close>
\<close>

definition handleComputerMove_timeout :: "client \<Rightarrow> client" where
  "handleComputerMove_timeout s =
     (if determineWinner (currentGameBoard s) MarkO then
        s\<lparr>statistics := (statistics s)\<lparr>computer := computer (statistics s) + 1,
                             localTotalGames := localTotalGames (statistics s) + 1\<rparr>,
          isGameCurrentlyActive := False\<rparr>
      else if isGameOver (currentGameBoard s) then
        s\<lparr>statistics := (statistics s)\<lparr>localDraws := localDraws (statistics s) + 1,
                             localTotalGames := localTotalGames (statistics s) + 1\<rparr>,
          isGameCurrentlyActive := False\<rparr>
      else s\<lparr>isProcessingMove := False, clicksEnabled := True\<rparr>)"

text \<open>
  A handler sets timers and returns; the callbacks run later, one after the other. The
  functions below run a handler together with the callbacks it leads to, with no other
  event of the page in between: the computer's move with its callback, a click with its
  callback and the computer's answer, the creation of the board with the computer's opening
  move. A click on cell \<open>index\<close> (one of the nine cells) reaches the handler only while
  the cells carry it.
\<close>

definition handleComputerMove_run :: "nat \<Rightarrow> client \<Rightarrow> client" where
  "handleComputerMove_run rnd s =
     (case handleComputerMove rnd s of
        None \<Rightarrow> s
      | Some s1 \<Rightarrow> handleComputerMove_timeout s1)"

definition handlePlayerMove_run :: "nat \<Rightarrow> client \<Rightarrow> nat \<Rightarrow> client" where
  "handlePlayerMove_run rnd s index =
     (case handlePlayerMove s index of
        (s1, None) \<Rightarrow> s1
      | (s1, Some playerMark) \<Rightarrow>
          (case handlePlayerMove_timeout playerMark s1 of
             (s2, False) \<Rightarrow> s2
           | (s2, True) \<Rightarrow> handleComputerMove_run rnd s2))"

definition creategameBoard_run :: "nat \<Rightarrow> client \<Rightarrow> client" where
  "creategameBoard_run rnd s =
     (let s1 = creategameBoard s
      in if computerOpens s1 then handleComputerMove_run rnd s1 else s1)"

definition cellClick :: "nat \<Rightarrow> client \<Rightarrow> nat \<Rightarrow> client" where
  "cellClick rnd s index =
     (if index < 9 \<and> clicksEnabled s then handlePlayerMove_run rnd s index else s)"

text \<open>A click on an element inside a cell reaches the handler under the same condition;
  it sets no timer, so nothing runs after the handler.\<close>

definition innerClick :: "client \<Rightarrow> client \<times> jsError option" where
  "innerClick s = (if clicksEnabled s then handlePlayerMove_noIndex s else (s, None))"

text \<open>
  A game against the computer on hard difficulty: the board is created in the offline
  mode against the computer with the difficulty set to hard (either side starting), and
  from then on the player clicks cells.
\<close>

inductive hardPlay :: "client \<Rightarrow> bool" where
  start: "gameMode s = Pvc \<Longrightarrow> \<not> onlineMode s \<Longrightarrow> difficulty s = Hard \<Longrightarrow>
            hardPlay (creategameBoard_run rnd s)"
| click: "hardPlay s \<Longrightarrow> hardPlay (cellClick rnd s index)"

section \<open>Auxiliary notions for the search\<close>

text \<open>
  The notions of this section are not part of the program; the theorems about the hard
  difficulty are stated and proved with them. \<open>canHold True b\<close> says that the computer
  (O), about to move on board \<open>b\<close>, has a way to play that never lets X complete a line;
  \<open>canHold False b\<close> says the same when X is about to move. A board counts as decided the
  way \<^verbatim>\<open>minimax\<close> decides it: by \<^verbatim>\<open>checkWinner\<close>, then by \<^verbatim>\<open>isBoardFull\<close>.
\<close>

inductive canHold :: "bool \<Rightarrow> board \<Rightarrow> bool" where
  won: "checkWinner b = Some MarkO \<Longrightarrow> canHold m b"
| drawn: "checkWinner b = None \<Longrightarrow> isBoardFull b \<Longrightarrow> canHold m b"
| computer: "checkWinner b = None \<Longrightarrow> \<not> isBoardFull b \<Longrightarrow> i \<in> set (getEmptyIndices b) \<Longrightarrow>
     canHold False (b[i := Some MarkO]) \<Longrightarrow> canHold True b"
| opponent: "checkWinner b = None \<Longrightarrow> \<not> isBoardFull b \<Longrightarrow>
     (\<forall>i \<in> set (getEmptyIndices b). canHold True (b[i := Some MarkX])) \<Longrightarrow> canHold False b"

text \<open>
  A strategy for O as a tree: \<open>Reply i rest\<close> plays cell \<open>i\<close> and then holds, for every
  empty cell X may take (in increasing order of the cells), the strategy that answers it.
  \<open>follows t b\<close> checks by computation that \<open>t\<close> is such a way to play from \<open>b\<close> with O to
  move, \<open>followsAll ts cells b\<close> that the strategies \<open>ts\<close> answer the X moves \<open>cells\<close>.
\<close>

datatype strategy = Reply nat "strategy list"

fun follows :: "strategy \<Rightarrow> board \<Rightarrow> bool"
  and followsAll :: "strategy list \<Rightarrow> nat list \<Rightarrow> board \<Rightarrow> bool" where
  "follows (Reply i rest) b =
     (if checkWinner b = Some MarkO then True
      else if checkWinner b \<noteq> None then False
      else if isBoardFull b then True
      else if \<not> (i < length b \<and> b ! i = None) then False
      else if checkWinner (b[i := Some MarkO]) = Some MarkO then True
      else if checkWinner (b[i := Some MarkO]) \<noteq> None then False
      else if isBoardFull (b[i := Some MarkO]) then True
      else followsAll rest (getEmptyIndices (b[i := Some MarkO])) (b[i := Some MarkO]))"
| "followsAll [] [] b = True"
| "followsAll (t # ts) (i # cells) b =
     (if follows t (b[i := Some MarkX]) then followsAll ts cells b else False)"
| "followsAll [] (i # cells) b = False"
| "followsAll (t # ts) [] b = False"

text \<open>Two such trees: the answers of O to each of the nine openings of X, and a way to
  play for O when O opens.\<close>

definition answersToOpenings :: "strategy list" where
  "answersToOpenings =
     [Reply 4 [Reply 2 [Reply 6 [], Reply 6 [], Reply 3 [Reply 7 [Reply 0 []], Reply 5 [],
      Reply 5 []], Reply 6 [], Reply 6 []], Reply 1 [Reply 7 [], Reply 7 [], Reply 7 [],
      Reply 3 [Reply 8 [Reply 0 []], Reply 5 [], Reply 5 []], Reply 7 []], Reply 6 [Reply 2
      [], Reply 1 [Reply 7 [], Reply 5 [Reply 0 []], Reply 7 []], Reply 2 [], Reply 2 [],
      Reply 2 []], Reply 1 [Reply 7 [], Reply 7 [], Reply 7 [], Reply 6 [Reply 8 [Reply 0
      []], Reply 2 [], Reply 2 []], Reply 7 []], Reply 3 [Reply 5 [], Reply 5 [], Reply 1
      [Reply 7 [], Reply 8 [Reply 0 []], Reply 7 []], Reply 5 [], Reply 5 []], Reply 3
      [Reply 5 [], Reply 5 [], Reply 2 [Reply 6 [], Reply 8 [Reply 0 []], Reply 6 []], Reply
      5 [], Reply 5 []], Reply 1 [Reply 7 [], Reply 7 [], Reply 7 [], Reply 7 [], Reply 6
      [Reply 5 [Reply 0 []], Reply 2 [], Reply 2 []]]],
      Reply 4 [Reply 2 [Reply 6 [], Reply 6 [], Reply 3 [Reply 7 [Reply 0 []], Reply 5 [],
      Reply 5 []], Reply 6 [], Reply 6 []], Reply 0 [Reply 8 [], Reply 8 [], Reply 8 [],
      Reply 8 [], Reply 5 [Reply 6 [Reply 0 []], Reply 3 [], Reply 3 []]], Reply 0 [Reply 8
      [], Reply 8 [], Reply 8 [], Reply 8 [], Reply 2 [Reply 6 [], Reply 7 [Reply 0 []],
      Reply 6 []]], Reply 0 [Reply 8 [], Reply 8 [], Reply 8 [], Reply 8 [], Reply 2 [Reply
      6 [], Reply 7 [Reply 0 []], Reply 6 []]], Reply 3 [Reply 5 [], Reply 5 [], Reply 8
      [Reply 2 [Reply 0 []], Reply 0 [], Reply 0 []], Reply 5 [], Reply 5 []], Reply 0
      [Reply 8 [], Reply 8 [], Reply 8 [], Reply 8 [], Reply 6 [Reply 3 [], Reply 2 [],
      Reply 2 []]], Reply 3 [Reply 5 [], Reply 5 [], Reply 2 [Reply 6 [], Reply 7 [Reply 0
      []], Reply 6 []], Reply 5 [], Reply 5 []]],
      Reply 4 [Reply 1 [Reply 7 [], Reply 7 [], Reply 7 [], Reply 3 [Reply 8 [Reply 0 []],
      Reply 5 [], Reply 5 []], Reply 7 []], Reply 0 [Reply 8 [], Reply 8 [], Reply 8 [],
      Reply 8 [], Reply 5 [Reply 6 [Reply 0 []], Reply 3 [], Reply 3 []]], Reply 1 [Reply 7
      [], Reply 7 [], Reply 7 [], Reply 8 [Reply 6 [Reply 0 []], Reply 0 [], Reply 0 []],
      Reply 7 []], Reply 8 [Reply 1 [Reply 7 [], Reply 7 [], Reply 3 [Reply 0 []]], Reply 0
      [], Reply 0 [], Reply 0 [], Reply 0 []], Reply 1 [Reply 7 [], Reply 7 [], Reply 7 [],
      Reply 8 [Reply 3 [Reply 0 []], Reply 0 [], Reply 0 []], Reply 7 []], Reply 3 [Reply 5
      [], Reply 5 [], Reply 8 [Reply 1 [Reply 0 []], Reply 0 [], Reply 0 []], Reply 5 [],
      Reply 5 []], Reply 5 [Reply 3 [], Reply 3 [], Reply 1 [Reply 7 [], Reply 7 [], Reply 6
      [Reply 0 []]], Reply 3 [], Reply 3 []]],
      Reply 4 [Reply 6 [Reply 2 [], Reply 1 [Reply 7 [], Reply 5 [Reply 0 []], Reply 7 []],
      Reply 2 [], Reply 2 [], Reply 2 []], Reply 0 [Reply 8 [], Reply 8 [], Reply 8 [],
      Reply 8 [], Reply 2 [Reply 6 [], Reply 7 [Reply 0 []], Reply 6 []]], Reply 1 [Reply 7
      [], Reply 7 [], Reply 7 [], Reply 8 [Reply 6 [Reply 0 []], Reply 0 [], Reply 0 []],
      Reply 7 []], Reply 0 [Reply 8 [], Reply 8 [], Reply 8 [], Reply 8 [], Reply 2 [Reply 6
      [], Reply 1 [], Reply 1 []]], Reply 0 [Reply 8 [], Reply 8 [], Reply 8 [], Reply 8 [],
      Reply 7 [Reply 2 [Reply 0 []], Reply 1 [], Reply 1 []]], Reply 0 [Reply 8 [], Reply 8
      [], Reply 8 [], Reply 8 [], Reply 6 [Reply 2 [], Reply 5 [Reply 0 []], Reply 2 []]],
      Reply 1 [Reply 7 [], Reply 7 [], Reply 7 [], Reply 7 [], Reply 6 [Reply 2 [], Reply 5
      [Reply 0 []], Reply 2 []]]],
      Reply 0 [Reply 7 [Reply 6 [Reply 8 [], Reply 3 [], Reply 3 []], Reply 5 [Reply 6
      [Reply 0 []], Reply 2 [Reply 0 []], Reply 2 [Reply 0 []]], Reply 3 [Reply 6 [], Reply
      2 [Reply 0 []], Reply 6 []], Reply 2 [Reply 5 [Reply 0 []], Reply 3 [Reply 0 []],
      Reply 3 [Reply 0 []]], Reply 3 [Reply 6 [], Reply 6 [], Reply 2 [Reply 0 []]]], Reply
      6 [Reply 3 [], Reply 5 [Reply 7 [Reply 0 []], Reply 1 [Reply 0 []], Reply 1 [Reply 0
      []]], Reply 3 [], Reply 3 [], Reply 3 []], Reply 5 [Reply 7 [Reply 6 [Reply 0 []],
      Reply 2 [Reply 0 []], Reply 2 [Reply 0 []]], Reply 6 [Reply 7 [Reply 0 []], Reply 1
      [Reply 0 []], Reply 1 [Reply 0 []]], Reply 2 [Reply 8 [], Reply 1 [], Reply 1 []],
      Reply 1 [Reply 6 [Reply 0 []], Reply 2 [], Reply 2 []], Reply 1 [Reply 6 [Reply 0 []],
      Reply 2 [], Reply 2 []]], Reply 3 [Reply 6 [], Reply 6 [], Reply 2 [Reply 7 [Reply 0
      []], Reply 1 [], Reply 1 []], Reply 6 [], Reply 6 []], Reply 2 [Reply 7 [Reply 5
      [Reply 0 []], Reply 3 [Reply 0 []], Reply 3 [Reply 0 []]], Reply 1 [], Reply 1 [],
      Reply 1 [], Reply 1 []], Reply 1 [Reply 6 [Reply 5 [Reply 0 []], Reply 3 [], Reply 3
      []], Reply 2 [], Reply 2 [], Reply 2 [], Reply 2 []], Reply 2 [Reply 7 [Reply 5 [Reply
      0 []], Reply 3 [Reply 0 []], Reply 3 [Reply 0 []]], Reply 1 [], Reply 1 [], Reply 1
      [], Reply 1 []]],
      Reply 4 [Reply 1 [Reply 7 [], Reply 7 [], Reply 7 [], Reply 6 [Reply 8 [Reply 0 []],
      Reply 2 [], Reply 2 []], Reply 7 []], Reply 0 [Reply 8 [], Reply 8 [], Reply 8 [],
      Reply 8 [], Reply 2 [Reply 6 [], Reply 7 [Reply 0 []], Reply 6 []]], Reply 8 [Reply 1
      [Reply 7 [], Reply 7 [], Reply 3 [Reply 0 []]], Reply 0 [], Reply 0 [], Reply 0 [],
      Reply 0 []], Reply 0 [Reply 8 [], Reply 8 [], Reply 8 [], Reply 8 [], Reply 2 [Reply 6
      [], Reply 1 [], Reply 1 []]], Reply 1 [Reply 7 [], Reply 7 [], Reply 7 [], Reply 8
      [Reply 3 [Reply 0 []], Reply 0 [], Reply 0 []], Reply 7 []], Reply 2 [Reply 6 [],
      Reply 6 [], Reply 6 [], Reply 8 [Reply 3 [Reply 0 []], Reply 0 [], Reply 0 []], Reply
      6 []], Reply 2 [Reply 6 [], Reply 6 [], Reply 6 [], Reply 7 [Reply 1 [], Reply 0
      [Reply 0 []], Reply 1 []], Reply 6 []]],
      Reply 4 [Reply 3 [Reply 5 [], Reply 5 [], Reply 1 [Reply 7 [], Reply 8 [Reply 0 []],
      Reply 7 []], Reply 5 [], Reply 5 []], Reply 3 [Reply 5 [], Reply 5 [], Reply 8 [Reply
      2 [Reply 0 []], Reply 0 [], Reply 0 []], Reply 5 [], Reply 5 []], Reply 1 [Reply 7 [],
      Reply 7 [], Reply 7 [], Reply 8 [Reply 3 [Reply 0 []], Reply 0 [], Reply 0 []], Reply
      7 []], Reply 0 [Reply 8 [], Reply 8 [], Reply 8 [], Reply 8 [], Reply 7 [Reply 2
      [Reply 0 []], Reply 1 [], Reply 1 []]], Reply 1 [Reply 7 [], Reply 7 [], Reply 7 [],
      Reply 8 [Reply 3 [Reply 0 []], Reply 0 [], Reply 0 []], Reply 7 []], Reply 8 [Reply 3
      [Reply 5 [], Reply 5 [], Reply 1 [Reply 0 []]], Reply 0 [], Reply 0 [], Reply 0 [],
      Reply 0 []], Reply 7 [Reply 1 [], Reply 3 [Reply 5 [], Reply 5 [], Reply 2 [Reply 0
      []]], Reply 1 [], Reply 1 [], Reply 1 []]],
      Reply 4 [Reply 3 [Reply 5 [], Reply 5 [], Reply 2 [Reply 6 [], Reply 8 [Reply 0 []],
      Reply 6 []], Reply 5 [], Reply 5 []], Reply 0 [Reply 8 [], Reply 8 [], Reply 8 [],
      Reply 8 [], Reply 6 [Reply 3 [], Reply 2 [], Reply 2 []]], Reply 3 [Reply 5 [], Reply
      5 [], Reply 8 [Reply 1 [Reply 0 []], Reply 0 [], Reply 0 []], Reply 5 [], Reply 5 []],
      Reply 0 [Reply 8 [], Reply 8 [], Reply 8 [], Reply 8 [], Reply 6 [Reply 2 [], Reply 5
      [Reply 0 []], Reply 2 []]], Reply 2 [Reply 6 [], Reply 6 [], Reply 6 [], Reply 8
      [Reply 3 [Reply 0 []], Reply 0 [], Reply 0 []], Reply 6 []], Reply 8 [Reply 3 [Reply 5
      [], Reply 5 [], Reply 1 [Reply 0 []]], Reply 0 [], Reply 0 [], Reply 0 [], Reply 0
      []], Reply 6 [Reply 2 [], Reply 2 [], Reply 5 [Reply 3 [], Reply 3 [], Reply 0 [Reply
      0 []]], Reply 2 [], Reply 2 []]],
      Reply 4 [Reply 1 [Reply 7 [], Reply 7 [], Reply 7 [], Reply 7 [], Reply 6 [Reply 5
      [Reply 0 []], Reply 2 [], Reply 2 []]], Reply 3 [Reply 5 [], Reply 5 [], Reply 2
      [Reply 6 [], Reply 7 [Reply 0 []], Reply 6 []], Reply 5 [], Reply 5 []], Reply 5
      [Reply 3 [], Reply 3 [], Reply 1 [Reply 7 [], Reply 7 [], Reply 6 [Reply 0 []]], Reply
      3 [], Reply 3 []], Reply 1 [Reply 7 [], Reply 7 [], Reply 7 [], Reply 7 [], Reply 6
      [Reply 2 [], Reply 5 [Reply 0 []], Reply 2 []]], Reply 2 [Reply 6 [], Reply 6 [],
      Reply 6 [], Reply 7 [Reply 1 [], Reply 0 [Reply 0 []], Reply 1 []], Reply 6 []], Reply
      7 [Reply 1 [], Reply 3 [Reply 5 [], Reply 5 [], Reply 2 [Reply 0 []]], Reply 1 [],
      Reply 1 [], Reply 1 []], Reply 6 [Reply 2 [], Reply 2 [], Reply 5 [Reply 3 [], Reply 3
      [], Reply 0 [Reply 0 []]], Reply 2 [], Reply 2 []]]]"

definition computerOpening :: strategy where
  "computerOpening =
     Reply 0 [Reply 3 [Reply 6 [], Reply 6 [], Reply 6 [], Reply 4 [Reply 5 [], Reply 8 [],
     Reply 5 [], Reply 5 []], Reply 6 [], Reply 6 []], Reply 3 [Reply 6 [], Reply 6 [],
     Reply 6 [], Reply 4 [Reply 5 [], Reply 8 [], Reply 5 [], Reply 5 []], Reply 6 [], Reply
     6 []], Reply 1 [Reply 4 [Reply 7 [], Reply 7 [], Reply 8 [], Reply 7 []], Reply 2 [],
     Reply 2 [], Reply 2 [], Reply 2 [], Reply 2 []], Reply 1 [Reply 6 [Reply 5 [Reply 8 [],
     Reply 7 []], Reply 3 [], Reply 3 [], Reply 3 []], Reply 2 [], Reply 2 [], Reply 2 [],
     Reply 2 [], Reply 2 []], Reply 2 [Reply 4 [Reply 6 [], Reply 8 [], Reply 6 [], Reply 6
     []], Reply 1 [], Reply 1 [], Reply 1 [], Reply 1 [], Reply 1 []], Reply 1 [Reply 4
     [Reply 7 [], Reply 7 [], Reply 8 [], Reply 7 []], Reply 2 [], Reply 2 [], Reply 2 [],
     Reply 2 [], Reply 2 []], Reply 2 [Reply 4 [Reply 6 [], Reply 6 [], Reply 8 [], Reply 6
     []], Reply 1 [], Reply 1 [], Reply 1 [], Reply 1 [], Reply 1 []], Reply 2 [Reply 6
     [Reply 4 [], Reply 3 [], Reply 3 [], Reply 3 []], Reply 1 [], Reply 1 [], Reply 1 [],
     Reply 1 [], Reply 1 []]]"

text \<open>
  The test of \<^verbatim>\<open>findCriticalMove\<close> on one line, for the count 2 that the medium difficulty
  passes: \<^verbatim>\<open>playerCount === 2 && emptyCount === 1\<close>, that is, exactly two cells of the line
  hold the mark and exactly one is empty.
\<close>

definition completable :: "board \<Rightarrow> mark \<Rightarrow> nat \<times> nat \<times> nat \<Rightarrow> bool" where
  "completable b targetPlayer =
     (\<lambda>(x, y, z).
        length (filter (\<lambda>position. position = Some targetPlayer) [b ! x, b ! y, b ! z]) = 2
        \<and> length (filter (\<lambda>position. position = None) [b ! x, b ! y, b ! z]) = 1)"

text \<open>
  What holds of the local state throughout a game against the hard difficulty: the mode
  and the difficulty stay, the board has nine cells and no full line of X; while the game
  is active no line is full, a cell is empty, it is the player's turn with the cells
  clickable, and O can hold the position; once it is over, O owns a line or the board is
  full without a winner.
\<close>

definition hardInvariant :: "client \<Rightarrow> bool" where
  "hardInvariant s =
     (gameMode s = Pvc \<and> \<not> onlineMode s \<and> difficulty s = Hard
      \<and> length (currentGameBoard s) = 9
      \<and> \<not> determineWinner (currentGameBoard s) MarkX
      \<and> (if isGameCurrentlyActive s
          then checkWinner (currentGameBoard s) = None \<and> \<not> isBoardFull (currentGameBoard s)
               \<and> canHold False (currentGameBoard s)
               \<and> \<not> isProcessingMove s \<and> clicksEnabled s
          else determineWinner (currentGameBoard s) MarkO
               \<or> (isGameOver (currentGameBoard s) \<and> checkWinner (currentGameBoard s) = None)))"

section \<open>The rules evaluator\<close>

lemma determineWinner_iff:
  "determineWinner bd m = (\<exists>l \<in> set winningCombinations. lineFull bd m l)"
  by (simp add: determineWinner_def list_ex_iff)

lemma scan_Some_iff:
  "checkWinner_scan ws bd = Some m \<longleftrightarrow>
     (\<exists>k < length ws. lineFull bd m (ws ! k) \<and> (\<forall>j < k. \<forall>m'. \<not> lineFull bd m' (ws ! j)))"
proof (induction ws)
  case Nil
  show ?case by simp
next
  case (Cons l ws)
  obtain a b c where l: "l = (a, b, c)" by (cases l) auto
  show ?case
  proof (cases "\<exists>m'. lineFull bd m' l")
    case True
    then obtain m' where m': "lineFull bd m' l" ..
    have "checkWinner_scan (l # ws) bd = Some m'"
      using m' by (simp add: l lineFull_def)
    moreover have "(\<exists>k < length (l # ws). lineFull bd m ((l # ws) ! k) \<and>
        (\<forall>j < k. \<forall>m''. \<not> lineFull bd m'' ((l # ws) ! j))) \<longleftrightarrow> m = m'"
    proof
      assume "\<exists>k < length (l # ws). lineFull bd m ((l # ws) ! k) \<and>
        (\<forall>j < k. \<forall>m''. \<not> lineFull bd m'' ((l # ws) ! j))"
      then obtain k where k: "lineFull bd m ((l # ws) ! k)"
        "\<forall>j < k. \<forall>m''. \<not> lineFull bd m'' ((l # ws) ! j)" by blast
      have "k = 0"
      proof (rule ccontr)
        assume "k \<noteq> 0"
        then have "0 < k" by simp
        with k(2) have "\<not> lineFull bd m' ((l # ws) ! 0)" by blast
        with m' show False by simp
      qed
      with k(1) have "lineFull bd m l" by simp
      with m' show "m = m'" by (auto simp: l lineFull_def)
    next
      assume "m = m'"
      with m' have "lineFull bd m ((l # ws) ! 0)" by simp
      then show "\<exists>k < length (l # ws). lineFull bd m ((l # ws) ! k) \<and>
        (\<forall>j < k. \<forall>m''. \<not> lineFull bd m'' ((l # ws) ! j))"
        by (intro exI[of _ 0]) simp
    qed
    ultimately show ?thesis by auto
  next
    case False
    then have nf: "\<And>m'. \<not> lineFull bd m' l" by blast
    have "\<not> (bd ! a \<noteq> None \<and> bd ! a = bd ! b \<and> bd ! a = bd ! c)"
    proof
      assume h: "bd ! a \<noteq> None \<and> bd ! a = bd ! b \<and> bd ! a = bd ! c"
      then obtain y where "bd ! a = Some y" by auto
      with h have "lineFull bd y l" by (auto simp: l lineFull_def)
      with nf show False by blast
    qed
    then have step: "checkWinner_scan (l # ws) bd = checkWinner_scan ws bd"
      unfolding l by (subst checkWinner_scan.simps) (simp only: if_False)
    have "(\<exists>k < length (l # ws). lineFull bd m ((l # ws) ! k) \<and>
        (\<forall>j < k. \<forall>m''. \<not> lineFull bd m'' ((l # ws) ! j))) \<longleftrightarrow>
      (\<exists>k < length ws. lineFull bd m (ws ! k) \<and> (\<forall>j < k. \<forall>m'. \<not> lineFull bd m' (ws ! j)))"
      (is "?L \<longleftrightarrow> ?R")
    proof
      assume ?L
      then obtain k where k: "k < length (l # ws)" "lineFull bd m ((l # ws) ! k)"
        "\<forall>j < k. \<forall>m''. \<not> lineFull bd m'' ((l # ws) ! j)" by blast
      from k(2) nf have "k \<noteq> 0" by (cases k) auto
      then obtain k' where k': "k = Suc k'" by (cases k) auto
      have "\<forall>j < k'. \<forall>m'. \<not> lineFull bd m' (ws ! j)"
      proof (intro allI impI)
        fix j m'' assume "j < k'"
        then have "Suc j < k" by (simp add: k')
        with k(3) have "\<not> lineFull bd m'' ((l # ws) ! Suc j)" by blast
        then show "\<not> lineFull bd m'' (ws ! j)" by simp
      qed
      with k(1,2) show ?R by (intro exI[of _ k']) (simp add: k')
    next
      assume ?R
      then obtain k where k: "k < length ws" "lineFull bd m (ws ! k)"
        "\<forall>j < k. \<forall>m'. \<not> lineFull bd m' (ws ! j)" by blast
      have "\<forall>j < Suc k. \<forall>m''. \<not> lineFull bd m'' ((l # ws) ! j)"
      proof (intro allI impI)
        fix j m'' assume "j < Suc k"
        show "\<not> lineFull bd m'' ((l # ws) ! j)"
        proof (cases j)
          case 0 then show ?thesis using nf by simp
        next
          case (Suc j')
          with \<open>j < Suc k\<close> have "j' < k" by simp
          with k(3) show ?thesis by (simp add: Suc)
        qed
      qed
      with k(1,2) show ?L by (intro exI[of _ "Suc k"]) simp
    qed
    with step Cons.IH show ?thesis by simp
  qed
qed


lemma lineFull_unique: "lineFull b m l \<Longrightarrow> lineFull b m' l \<Longrightarrow> m = m'"
  by (cases l) (auto simp: lineFull_def)

lemma checkWinner_Some_iff:
  "checkWinner b = Some m \<longleftrightarrow>
     (\<exists>k < length winningCombinations. lineFull b m (winningCombinations ! k) \<and>
        (\<forall>j < k. \<forall>m'. \<not> lineFull b m' (winningCombinations ! j)))"
  unfolding checkWinner_def by (rule scan_Some_iff)

lemma checkWinner_Some_line: "checkWinner b = Some m \<Longrightarrow> determineWinner b m"
  unfolding checkWinner_Some_iff determineWinner_iff by (metis nth_mem)

lemma checkWinner_None_iff:
  "checkWinner b = None \<longleftrightarrow> \<not> determineWinner b MarkX \<and> \<not> determineWinner b MarkO"
proof
  assume n: "checkWinner b = None"
  show "\<not> determineWinner b MarkX \<and> \<not> determineWinner b MarkO"
  proof (rule ccontr)
    assume "\<not> (\<not> determineWinner b MarkX \<and> \<not> determineWinner b MarkO)"
    then obtain m where "determineWinner b m" by blast
    then obtain k where k: "k < length winningCombinations" "lineFull b m (winningCombinations ! k)"
      unfolding determineWinner_iff by (metis in_set_conv_nth)
    define P where "P i \<longleftrightarrow> (\<exists>m'. lineFull b m' (winningCombinations ! i))" for i
    have "P k" using k(2) by (auto simp: P_def)
    define k0 where "k0 = (LEAST i. P i)"
    have "P k0" unfolding k0_def using \<open>P k\<close> by (rule LeastI)
    have "k0 \<le> k" unfolding k0_def using \<open>P k\<close> by (rule Least_le)
    have least: "\<And>j. j < k0 \<Longrightarrow> \<not> P j" unfolding k0_def by (rule not_less_Least)
    from \<open>P k0\<close> obtain m0 where "lineFull b m0 (winningCombinations ! k0)" by (auto simp: P_def)
    with least \<open>k0 \<le> k\<close> k(1) have "checkWinner b = Some m0"
      unfolding checkWinner_Some_iff P_def by (intro exI[of _ k0]) auto
    with n show False by simp
  qed
next
  assume a: "\<not> determineWinner b MarkX \<and> \<not> determineWinner b MarkO"
  show "checkWinner b = None"
  proof (cases "checkWinner b")
    case None then show ?thesis .
  next
    case (Some m)
    then have "determineWinner b m" by (rule checkWinner_Some_line)
    with a show ?thesis by (cases m) auto
  qed
qed

lemma checkWinner_only_mark:
  assumes "determineWinner b m" and "\<not> determineWinner b (otherMark m)"
  shows "checkWinner b = Some m"
proof (cases "checkWinner b")
  case None
  with assms(1) show ?thesis by (cases m) (auto simp: checkWinner_None_iff)
next
  case (Some m')
  then have "determineWinner b m'" by (rule checkWinner_Some_line)
  with assms(2) have "m' = m" by (cases m; cases m') (auto simp: otherMark_def)
  with Some show ?thesis by simp
qed

text \<open>
  Claim C1 (amended). On a board of nine cells \<^verbatim>\<open>checkWinner\<close> returns the mark of the
  first full line of its table: it returns \<open>m\<close> exactly when some line is fully \<open>m\<close> and
  no earlier line of the table is fully the other mark. Hence a mark it returns owns a full
  line, a mark that alone owns a full line is returned, and it returns \<^verbatim>\<open>null\<close> exactly
  when no line is fully one mark.
\<close>

theorem checkWinner_first_full_line:
  assumes "length b = 9"
  shows "(checkWinner b = Some m \<longleftrightarrow>
            (\<exists>k < length winningCombinations. lineFull b m (winningCombinations ! k) \<and>
               (\<forall>j < k. \<not> lineFull b (otherMark m) (winningCombinations ! j))))
       \<and> (checkWinner b = Some m \<longrightarrow> determineWinner b m)
       \<and> (determineWinner b m \<and> \<not> determineWinner b (otherMark m) \<longrightarrow> checkWinner b = Some m)
       \<and> (checkWinner b = None \<longleftrightarrow> \<not> determineWinner b MarkX \<and> \<not> determineWinner b MarkO)"
proof (intro conjI)
  show "checkWinner b = Some m \<longleftrightarrow>
      (\<exists>k < length winningCombinations. lineFull b m (winningCombinations ! k) \<and>
         (\<forall>j < k. \<not> lineFull b (otherMark m) (winningCombinations ! j)))" (is "?L \<longleftrightarrow> ?R")
  proof
    assume ?L
    then show ?R unfolding checkWinner_Some_iff by blast
  next
    assume ?R
    then obtain k where k: "k < length winningCombinations" "lineFull b m (winningCombinations ! k)"
      "\<forall>j < k. \<not> lineFull b (otherMark m) (winningCombinations ! j)" by blast
    define P where "P i \<longleftrightarrow> lineFull b m (winningCombinations ! i)" for i
    define k0 where "k0 = (LEAST i. P i)"
    have "P k" using k(2) by (simp add: P_def)
    then have "P k0" unfolding k0_def by (rule LeastI)
    have "k0 \<le> k" unfolding k0_def using \<open>P k\<close> by (rule Least_le)
    have least: "\<And>j. j < k0 \<Longrightarrow> \<not> P j" unfolding k0_def by (rule not_less_Least)
    have "\<forall>j < k0. \<forall>m'. \<not> lineFull b m' (winningCombinations ! j)"
    proof (intro allI impI)
      fix j m' assume j: "j < k0"
      with least have "\<not> lineFull b m (winningCombinations ! j)" by (simp add: P_def)
      moreover from j \<open>k0 \<le> k\<close> k(3) have "\<not> lineFull b (otherMark m) (winningCombinations ! j)"
        by simp
      ultimately show "\<not> lineFull b m' (winningCombinations ! j)"
        by (cases m; cases m') (auto simp: otherMark_def)
    qed
    with \<open>P k0\<close> \<open>k0 \<le> k\<close> k(1) show ?L
      unfolding checkWinner_Some_iff P_def by (intro exI[of _ k0]) auto
  qed
next
  show "checkWinner b = Some m \<longrightarrow> determineWinner b m"
    by (simp add: checkWinner_Some_line)
next
  show "determineWinner b m \<and> \<not> determineWinner b (otherMark m) \<longrightarrow> checkWinner b = Some m"
    by (simp add: checkWinner_only_mark)
next
  show "checkWinner b = None \<longleftrightarrow> \<not> determineWinner b MarkX \<and> \<not> determineWinner b MarkO"
    by (rule checkWinner_None_iff)
qed

theorem checkWinner_first_full_line_witness:
  "checkWinner [Some MarkX, Some MarkX, Some MarkX, Some MarkO, None, Some MarkO, None, None, None]
     = Some MarkX"
proof -
  have len: "length [Some MarkX, Some MarkX, Some MarkX, Some MarkO, None, Some MarkO, None, None, None]
      = (9::nat)" by simp
  have "determineWinner
      [Some MarkX, Some MarkX, Some MarkX, Some MarkO, None, Some MarkO, None, None, None] MarkX"
    by (simp add: determineWinner_def winningCombinations_def lineFull_def)
  moreover have "\<not> determineWinner
      [Some MarkX, Some MarkX, Some MarkX, Some MarkO, None, Some MarkO, None, None, None]
      (otherMark MarkX)"
    by (simp add: determineWinner_def winningCombinations_def lineFull_def otherMark_def)
  ultimately show ?thesis
    using checkWinner_first_full_line [OF len, of MarkX] by blast
qed

text \<open>
  Claim C1 as stated fails on a board where both marks own a full line: the first row is
  X, the second row is O, and \<^verbatim>\<open>checkWinner\<close> returns X although a line is fully O.
\<close>

theorem checkWinner_two_lines_counterexample:
  "length [Some MarkX, Some MarkX, Some MarkX, Some MarkO, Some MarkO, Some MarkO, None, None, None] = 9
   \<and> determineWinner
       [Some MarkX, Some MarkX, Some MarkX, Some MarkO, Some MarkO, Some MarkO, None, None, None] MarkO
   \<and> checkWinner
       [Some MarkX, Some MarkX, Some MarkX, Some MarkO, Some MarkO, Some MarkO, None, None, None]
       = Some MarkX"
  by (simp add: determineWinner_def checkWinner_def winningCombinations_def lineFull_def)

section \<open>The turn state machine: server and local engine\<close>

lemma list_all_nth9: "length (b :: board) = 9 \<Longrightarrow> list_all P b \<longleftrightarrow> (\<forall>i<9. P (b ! i))"
  by (simp add: list_all_length)

lemma getRoom_Some: "rooms s l = Some r \<Longrightarrow> getRoom s l = (r, s)"
  by (simp add: getRoom_def)

lemma makeMove_no_lobby: "dataLobbyId (socketsData s sid) = None \<Longrightarrow> makeMove s sid index = s"
  by (simp add: makeMove_def)

lemma makeMove_illegal:
  assumes "dataLobbyId (socketsData s sid) = Some l" and "rooms s l = Some r"
    and "\<not> isActive r \<or> index = NotInteger
         \<or> (\<exists>i. index = IntIndex i \<and> (i < 0 \<or> 8 < i \<or> board r ! nat i \<noteq> None))
         \<or> dataMark (socketsData s sid) \<noteq> Some (currentPlayer r)"
  shows "makeMove s sid index = s"
proof -
  have g: "getRoom s l = (r, s)"
    using assms(2) by (rule getRoom_Some)
  show ?thesis
  proof (cases index)
    case NotInteger
    then show ?thesis by (simp add: makeMove_def assms(1) g)
  next
    case (IntIndex i)
    with assms(3) consider "\<not> isActive r" | "i < 0 \<or> 8 < i \<or> board r ! nat i \<noteq> None"
      | "dataMark (socketsData s sid) \<noteq> Some (currentPlayer r)" by auto
    then show ?thesis
    proof cases
      case 1
      then show ?thesis by (simp add: makeMove_def assms(1) g)
    next
      case 2
      then show ?thesis by (auto simp: makeMove_def assms(1) g IntIndex)
    next
      case 3
      show ?thesis
      proof (cases "dataMark (socketsData s sid)")
        case None
        then show ?thesis by (simp add: makeMove_def assms(1) g IntIndex)
      next
        case (Some a)
        with 3 have "currentPlayer r \<noteq> a" by auto
        with Some show ?thesis by (simp add: makeMove_def assms(1) g IntIndex)
      qed
    qed
  qed
qed

lemma handlePlayerMove_illegal:
  assumes "\<not> isGameCurrentlyActive c \<or> currentGameBoard c ! k \<noteq> None \<or> isProcessingMove c
           \<or> (onlineMode c \<and> (myMark c \<noteq> Some (localCurrentPlayer c) \<or> \<not> socketOpen c))"
  shows "handlePlayerMove c k = (c, None)"
proof (cases "\<not> isGameCurrentlyActive c \<or> currentGameBoard c ! k \<noteq> None \<or> isProcessingMove c")
  case True
  then show ?thesis unfolding handlePlayerMove_def by (simp only: if_True)
next
  case False
  with assms have "onlineMode c" and "Some (localCurrentPlayer c) \<noteq> myMark c \<or> \<not> socketOpen c"
    by auto
  with False show ?thesis unfolding handlePlayerMove_def by (simp only: if_True if_False)
qed

lemma makeMove_legal:
  assumes "dataLobbyId (socketsData s sid) = Some l" and "rooms s l = Some r"
    and "isActive r" and "0 \<le> i" and "i \<le> 8" and "board r ! nat i = None"
    and "dataMark (socketsData s sid) = Some (currentPlayer r)"
  shows "makeMove s sid (IntIndex i) =
           s\<lparr>rooms := (rooms s)(l \<mapsto> placeMark r (nat i) (currentPlayer r)),
             emitted := emitted s @
               [ToLobby l (RoomState (placeMark r (nat i) (currentPlayer r)) l None)]\<rparr>"
  using assms by (simp add: makeMove_def getRoom_Some Let_def)

lemma placeMark_turn:
  "board (placeMark r k m) = (board r)[k := Some m] \<and>
   stats (placeMark r k m) =
     (if checkWinner ((board r)[k := Some m]) = Some MarkX
      then (stats r)\<lparr>xWins := xWins (stats r) + 1, totalGames := totalGames (stats r) + 1\<rparr>
      else if checkWinner ((board r)[k := Some m]) \<noteq> None
      then (stats r)\<lparr>oWins := oWins (stats r) + 1, totalGames := totalGames (stats r) + 1\<rparr>
      else if isDraw ((board r)[k := Some m])
      then (stats r)\<lparr>draws := draws (stats r) + 1, totalGames := totalGames (stats r) + 1\<rparr>
      else stats r) \<and>
   (if checkWinner ((board r)[k := Some m]) \<noteq> None \<or> isDraw ((board r)[k := Some m])
    then isActive (placeMark r k m) = False \<and> currentPlayer (placeMark r k m) = currentPlayer r
    else isActive (placeMark r k m) = isActive r \<and> currentPlayer (placeMark r k m) = otherMark m)"
  by (simp add: placeMark_def Let_def otherMark_def)


lemma handlePlayerMove_pvp:
  assumes "gameMode c = Pvp" and "\<not> onlineMode c" and "isGameCurrentlyActive c"
    and "\<not> isProcessingMove c" and "currentGameBoard c ! k = None"
  shows "handlePlayerMove c k =
           (c\<lparr>isProcessingMove := True, clicksEnabled := False,
              currentGameBoard := (currentGameBoard c)[k := Some (localCurrentPlayer c)]\<rparr>,
            Some (localCurrentPlayer c))"
  using assms by (simp add: handlePlayerMove_def Let_def)

lemma handlePlayerMove_timeout_pvp:
  assumes "gameMode c = Pvp"
  shows "currentGameBoard (fst (handlePlayerMove_timeout m c)) = currentGameBoard c \<and>
         snd (handlePlayerMove_timeout m c) = False \<and>
         (if determineWinner (currentGameBoard c) m \<or> isGameOver (currentGameBoard c)
          then isGameCurrentlyActive (fst (handlePlayerMove_timeout m c)) = False \<and>
               localCurrentPlayer (fst (handlePlayerMove_timeout m c)) = localCurrentPlayer c
          else isGameCurrentlyActive (fst (handlePlayerMove_timeout m c)) = isGameCurrentlyActive c \<and>
               localCurrentPlayer (fst (handlePlayerMove_timeout m c)) = otherMark (localCurrentPlayer c))"
  using assms by (simp add: handlePlayerMove_timeout_def otherMark_def)

lemma handlePlayerMove_run_pvp:
  assumes "gameMode c = Pvp" and "\<not> onlineMode c" and "isGameCurrentlyActive c"
    and "\<not> isProcessingMove c" and "currentGameBoard c ! k = None"
  shows "currentGameBoard (handlePlayerMove_run rnd c k)
           = (currentGameBoard c)[k := Some (localCurrentPlayer c)] \<and>
         (if determineWinner (currentGameBoard (handlePlayerMove_run rnd c k)) (localCurrentPlayer c)
             \<or> isGameOver (currentGameBoard (handlePlayerMove_run rnd c k))
          then \<not> isGameCurrentlyActive (handlePlayerMove_run rnd c k) \<and>
               localCurrentPlayer (handlePlayerMove_run rnd c k) = localCurrentPlayer c
          else isGameCurrentlyActive (handlePlayerMove_run rnd c k) \<and>
               localCurrentPlayer (handlePlayerMove_run rnd c k) = otherMark (localCurrentPlayer c))"
proof -
  define c1 where "c1 = c\<lparr>isProcessingMove := True, clicksEnabled := False,
      currentGameBoard := (currentGameBoard c)[k := Some (localCurrentPlayer c)]\<rparr>"
  have h: "handlePlayerMove c k = (c1, Some (localCurrentPlayer c))"
    unfolding c1_def using assms by (rule handlePlayerMove_pvp)
  have c1: "gameMode c1 = Pvp" "isGameCurrentlyActive c1" "localCurrentPlayer c1 = localCurrentPlayer c"
    "currentGameBoard c1 = (currentGameBoard c)[k := Some (localCurrentPlayer c)]"
    using assms by (simp_all add: c1_def)
  obtain c2 sched where t: "handlePlayerMove_timeout (localCurrentPlayer c) c1 = (c2, sched)"
    by (cases "handlePlayerMove_timeout (localCurrentPlayer c) c1") auto
  have "sched = False"
    using handlePlayerMove_timeout_pvp [OF c1(1), of "localCurrentPlayer c"] by (simp add: t)
  then have run: "handlePlayerMove_run rnd c k = fst (handlePlayerMove_timeout (localCurrentPlayer c) c1)"
    by (simp add: handlePlayerMove_run_def h t)
  show ?thesis
    unfolding run using handlePlayerMove_timeout_pvp [OF c1(1), of "localCurrentPlayer c"] c1
    by (simp split: if_splits)
qed

lemma newGame_room:
  assumes "dataLobbyId (socketsData s sid) = Some l"
  shows "rooms (newGame s sid) l =
           Some ((fst (getRoom s l))\<lparr>board := replicate 9 None, currentPlayer := MarkX, isActive := True\<rparr>)"
  using assms by (simp add: newGame_def getRoom_def Let_def split: option.splits)

lemma creategameBoard_fields:
  "currentGameBoard (creategameBoard c) = replicate 9 None \<and>
   isGameCurrentlyActive (creategameBoard c) \<and>
   statistics (creategameBoard c) = statistics c \<and>
   localCurrentPlayer (creategameBoard c) =
     (if gameMode c = Pvp \<and> \<not> onlineMode c \<and> \<not> playerXStartsFirst c then MarkO else MarkX)"
  by (simp add: creategameBoard_def)


lemma getRoom_balanced:
  assumes "\<forall>l r. rooms s l = Some r \<longrightarrow>
             xWins (stats r) + oWins (stats r) + draws (stats r) = totalGames (stats r)"
  shows "xWins (stats (fst (getRoom s l0))) + oWins (stats (fst (getRoom s l0)))
           + draws (stats (fst (getRoom s l0))) = totalGames (stats (fst (getRoom s l0)))"
    and "\<forall>l r. rooms (snd (getRoom s l0)) l = Some r \<longrightarrow>
             xWins (stats r) + oWins (stats r) + draws (stats r) = totalGames (stats r)"
  using assms by (auto simp: getRoom_def newRoomState_def split: option.splits)

lemma placeMark_balanced:
  assumes "xWins (stats r) + oWins (stats r) + draws (stats r) = totalGames (stats r)"
  shows "xWins (stats (placeMark r k m)) + oWins (stats (placeMark r k m))
           + draws (stats (placeMark r k m)) = totalGames (stats (placeMark r k m))"
  using assms by (simp add: placeMark_turn)

lemma store_balanced:
  assumes "\<forall>l r. rooms s1 l = Some r \<longrightarrow>
             xWins (stats r) + oWins (stats r) + draws (stats r) = totalGames (stats r)"
    and "xWins (stats r') + oWins (stats r') + draws (stats r') = totalGames (stats r')"
  shows "\<forall>l r. rooms (s1\<lparr>rooms := (rooms s1)(l0 \<mapsto> r'), emitted := out\<rparr>) l = Some r \<longrightarrow>
             xWins (stats r) + oWins (stats r) + draws (stats r) = totalGames (stats r)"
  using assms by auto

lemma makeMove_balanced:
  assumes "\<forall>l r. rooms s l = Some r \<longrightarrow>
             xWins (stats r) + oWins (stats r) + draws (stats r) = totalGames (stats r)"
  shows "\<forall>l r. rooms (makeMove s sid index) l = Some r \<longrightarrow>
             xWins (stats r) + oWins (stats r) + draws (stats r) = totalGames (stats r)"
proof (cases "dataLobbyId (socketsData s sid)")
  case None
  then show ?thesis using assms by (simp add: makeMove_def)
next
  case (Some l0)
  obtain r0 s1 where g: "getRoom s l0 = (r0, s1)" by (cases "getRoom s l0") auto
  have r0: "xWins (stats r0) + oWins (stats r0) + draws (stats r0) = totalGames (stats r0)"
    using getRoom_balanced(1) [OF assms, of l0] by (simp add: g)
  have s1: "\<forall>l r. rooms s1 l = Some r \<longrightarrow>
             xWins (stats r) + oWins (stats r) + draws (stats r) = totalGames (stats r)"
    using getRoom_balanced(2) [OF assms, of l0] by (simp add: g)
  have upd: "\<And>k m out. \<forall>l r. rooms (s1\<lparr>rooms := (rooms s1)(l0 \<mapsto> placeMark r0 k m), emitted := out\<rparr>) l
        = Some r \<longrightarrow> xWins (stats r) + oWins (stats r) + draws (stats r) = totalGames (stats r)"
    using s1 placeMark_balanced [OF r0] by (rule store_balanced)
  have "makeMove s sid index = s1 \<or>
      (\<exists>k m out. makeMove s sid index = s1\<lparr>rooms := (rooms s1)(l0 \<mapsto> placeMark r0 k m), emitted := out\<rparr>)"
    by (simp add: makeMove_def Some g Let_def split: indexArg.splits option.splits) blast
  then show ?thesis using s1 upd by metis
qed

lemma newGame_balanced:
  assumes "\<forall>l r. rooms s l = Some r \<longrightarrow>
             xWins (stats r) + oWins (stats r) + draws (stats r) = totalGames (stats r)"
  shows "\<forall>l r. rooms (newGame s sid) l = Some r \<longrightarrow>
             xWins (stats r) + oWins (stats r) + draws (stats r) = totalGames (stats r)"
proof (cases "dataLobbyId (socketsData s sid)")
  case None
  then show ?thesis using assms by (simp add: newGame_def)
next
  case (Some l0)
  obtain r0 s1 where g: "getRoom s l0 = (r0, s1)" by (cases "getRoom s l0") auto
  have r0: "xWins (stats r0) + oWins (stats r0) + draws (stats r0) = totalGames (stats r0)"
    using getRoom_balanced(1) [OF assms, of l0] by (simp add: g)
  have s1: "\<forall>l r. rooms s1 l = Some r \<longrightarrow>
             xWins (stats r) + oWins (stats r) + draws (stats r) = totalGames (stats r)"
    using getRoom_balanced(2) [OF assms, of l0] by (simp add: g)
  have bal: "xWins (stats (r0\<lparr>board := replicate 9 None, currentPlayer := MarkX, isActive := True\<rparr>))
      + oWins (stats (r0\<lparr>board := replicate 9 None, currentPlayer := MarkX, isActive := True\<rparr>))
      + draws (stats (r0\<lparr>board := replicate 9 None, currentPlayer := MarkX, isActive := True\<rparr>))
      = totalGames (stats (r0\<lparr>board := replicate 9 None, currentPlayer := MarkX, isActive := True\<rparr>))"
    using r0 by simp
  have eq: "newGame s sid =
      s1\<lparr>rooms := (rooms s1)(l0 \<mapsto> r0\<lparr>board := replicate 9 None, currentPlayer := MarkX, isActive := True\<rparr>),
         emitted := emitted s1 @ [ToLobby l0 (RoomState
           (r0\<lparr>board := replicate 9 None, currentPlayer := MarkX, isActive := True\<rparr>) l0 None)]\<rparr>"
    by (simp add: newGame_def Some g Let_def)
  show ?thesis
    unfolding eq using s1 bal by (rule store_balanced)
qed

lemma resetStats_balanced:
  assumes "\<forall>l r. rooms s l = Some r \<longrightarrow>
             xWins (stats r) + oWins (stats r) + draws (stats r) = totalGames (stats r)"
  shows "\<forall>l r. rooms (resetStats s sid) l = Some r \<longrightarrow>
             xWins (stats r) + oWins (stats r) + draws (stats r) = totalGames (stats r)"
proof (cases "dataLobbyId (socketsData s sid)")
  case None
  then show ?thesis using assms by (simp add: resetStats_def)
next
  case (Some l0)
  obtain r0 s1 where g: "getRoom s l0 = (r0, s1)" by (cases "getRoom s l0") auto
  have s1: "\<forall>l r. rooms s1 l = Some r \<longrightarrow>
             xWins (stats r) + oWins (stats r) + draws (stats r) = totalGames (stats r)"
    using getRoom_balanced(2) [OF assms, of l0] by (simp add: g)
  have bal: "xWins (stats (r0\<lparr>stats := \<lparr>xWins = 0, oWins = 0, draws = 0, totalGames = 0\<rparr>\<rparr>))
      + oWins (stats (r0\<lparr>stats := \<lparr>xWins = 0, oWins = 0, draws = 0, totalGames = 0\<rparr>\<rparr>))
      + draws (stats (r0\<lparr>stats := \<lparr>xWins = 0, oWins = 0, draws = 0, totalGames = 0\<rparr>\<rparr>))
      = totalGames (stats (r0\<lparr>stats := \<lparr>xWins = 0, oWins = 0, draws = 0, totalGames = 0\<rparr>\<rparr>))"
    by simp
  have eq: "resetStats s sid =
      s1\<lparr>rooms := (rooms s1)(l0 \<mapsto> r0\<lparr>stats := \<lparr>xWins = 0, oWins = 0, draws = 0, totalGames = 0\<rparr>\<rparr>),
         emitted := emitted s1 @ [ToLobby l0 (RoomState
           (r0\<lparr>stats := \<lparr>xWins = 0, oWins = 0, draws = 0, totalGames = 0\<rparr>\<rparr>) l0 None)]\<rparr>"
    by (simp add: resetStats_def Some g Let_def)
  show ?thesis
    unfolding eq using s1 bal by (rule store_balanced)
qed

lemma joinLobby_balanced:
  assumes "\<forall>l r. rooms s l = Some r \<longrightarrow>
             xWins (stats r) + oWins (stats r) + draws (stats r) = totalGames (stats r)"
  shows "\<forall>l r. rooms (joinLobby s sid lobbyIdArg requestedMark) l = Some r \<longrightarrow>
             xWins (stats r) + oWins (stats r) + draws (stats r) = totalGames (stats r)"
proof -
  define l0 where "l0 = trim (case lobbyIdArg of None \<Rightarrow> [] | Some l \<Rightarrow> l)"
  show ?thesis
  proof (cases "l0 = []")
    case True
    then show ?thesis using assms unfolding joinLobby_def l0_def [symmetric] by (simp add: Let_def)
  next
    case False
    obtain r0 s1 where g: "getRoom s l0 = (r0, s1)" by (cases "getRoom s l0") auto
    have r0: "xWins (stats r0) + oWins (stats r0) + draws (stats r0) = totalGames (stats r0)"
      using getRoom_balanced(1) [OF assms, of l0] by (simp add: g)
    have s1: "\<forall>l r. rooms s1 l = Some r \<longrightarrow>
               xWins (stats r) + oWins (stats r) + draws (stats r) = totalGames (stats r)"
      using getRoom_balanced(2) [OF assms, of l0] by (simp add: g)
    have rooms: "rooms (joinLobby s sid lobbyIdArg requestedMark)
        = (rooms s1)(l0 \<mapsto> r0\<lparr>players := List.insert sid (players r0)\<rparr>)"
      unfolding joinLobby_def l0_def [symmetric] using False by (simp add: Let_def g)
    show ?thesis unfolding rooms using s1 r0 by auto
  qed
qed

lemma handle_balanced:
  assumes "\<forall>l r. rooms s l = Some r \<longrightarrow>
             xWins (stats r) + oWins (stats r) + draws (stats r) = totalGames (stats r)"
  shows "\<forall>l r. rooms (handle s q) l = Some r \<longrightarrow>
             xWins (stats r) + oWins (stats r) + draws (stats r) = totalGames (stats r)"
proof (cases q)
  case (JoinLobby sid a b)
  then show ?thesis using joinLobby_balanced [OF assms] by simp
next
  case (MakeMove sid i)
  then show ?thesis using makeMove_balanced [OF assms] by simp
next
  case (NewGame sid)
  then show ?thesis using newGame_balanced [OF assms] by simp
next
  case (ResetStats sid)
  then show ?thesis using resetStats_balanced [OF assms] by simp
qed

lemma serve_balanced:
  "\<forall>l r. rooms (serve requests) l = Some r \<longrightarrow>
     xWins (stats r) + oWins (stats r) + draws (stats r) = totalGames (stats r)"
proof (induction requests rule: rev_induct)
  case Nil
  show ?case by (simp add: serve_def initialServer_def)
next
  case (snoc q requests)
  have "serve (requests @ [q]) = handle (serve requests) q"
    by (simp add: serve_def)
  then show ?case using handle_balanced [OF snoc.IH] by simp
qed

lemma trim_a: "trim ''a'' = ''a''"
  by (simp add: trim_def isWhiteSpace_def)

text \<open>
  Claim C9 (amended). On a board of nine cells the server's draw test \<^verbatim>\<open>isDraw\<close> is true
  exactly when all nine cells are occupied and \<^verbatim>\<open>checkWinner\<close> returns \<^verbatim>\<open>null\<close>. The
  local \<^verbatim>\<open>isGameOver\<close> is true exactly when all nine cells are occupied; the local engine
  asks it only after \<^verbatim>\<open>determineWinner\<close> has failed for the mark just placed, and on a
  board where the other mark owns no full line that sequence takes the draw branch exactly
  when all cells are occupied and \<^verbatim>\<open>checkWinner\<close> returns \<^verbatim>\<open>null\<close>. The board
  X O X / X O O / O X X is a draw for both.
\<close>

theorem draw_checks:
  assumes "length b = 9"
  shows "(isDraw b \<longleftrightarrow> (\<forall>i<9. b ! i \<noteq> None) \<and> checkWinner b = None)
       \<and> (isGameOver b \<longleftrightarrow> (\<forall>i<9. b ! i \<noteq> None))
       \<and> (\<not> determineWinner b (otherMark m) \<longrightarrow>
            (\<not> determineWinner b m \<and> isGameOver b
               \<longleftrightarrow> (\<forall>i<9. b ! i \<noteq> None) \<and> checkWinner b = None))
       \<and> isDraw [Some MarkX, Some MarkO, Some MarkX, Some MarkX, Some MarkO, Some MarkO,
                  Some MarkO, Some MarkX, Some MarkX]
       \<and> \<not> determineWinner [Some MarkX, Some MarkO, Some MarkX, Some MarkX, Some MarkO, Some MarkO,
                  Some MarkO, Some MarkX, Some MarkX] MarkX
       \<and> isGameOver [Some MarkX, Some MarkO, Some MarkX, Some MarkX, Some MarkO, Some MarkO,
                  Some MarkO, Some MarkX, Some MarkX]"
proof (intro conjI)
  show "isDraw b \<longleftrightarrow> (\<forall>i<9. b ! i \<noteq> None) \<and> checkWinner b = None"
    using assms by (simp add: isDraw_def list_all_nth9)
  show full: "isGameOver b \<longleftrightarrow> (\<forall>i<9. b ! i \<noteq> None)"
    using assms by (simp add: isGameOver_def list_all_nth9)
  show "\<not> determineWinner b (otherMark m) \<longrightarrow>
      (\<not> determineWinner b m \<and> isGameOver b \<longleftrightarrow> (\<forall>i<9. b ! i \<noteq> None) \<and> checkWinner b = None)"
    unfolding full checkWinner_None_iff by (cases m) (auto simp: otherMark_def)
  show "isDraw [Some MarkX, Some MarkO, Some MarkX, Some MarkX, Some MarkO, Some MarkO,
      Some MarkO, Some MarkX, Some MarkX]"
    by (simp add: isDraw_def checkWinner_def winningCombinations_def)
  show "\<not> determineWinner [Some MarkX, Some MarkO, Some MarkX, Some MarkX, Some MarkO, Some MarkO,
      Some MarkO, Some MarkX, Some MarkX] MarkX"
    by (simp add: determineWinner_def lineFull_def winningCombinations_def)
  show "isGameOver [Some MarkX, Some MarkO, Some MarkX, Some MarkX, Some MarkO, Some MarkO,
      Some MarkO, Some MarkX, Some MarkX]"
    by (simp add: isGameOver_def)
qed

theorem draw_checks_witness:
  "isDraw [Some MarkX, Some MarkO, Some MarkX, Some MarkX, Some MarkO, Some MarkO,
           Some MarkO, Some MarkX, Some MarkX]
   \<and> checkWinner [Some MarkX, Some MarkO, Some MarkX, Some MarkX, Some MarkO, Some MarkO,
           Some MarkO, Some MarkX, Some MarkX] = None
   \<and> \<not> determineWinner [Some MarkX, Some MarkO, Some MarkX, Some MarkX, Some MarkO, Some MarkO,
           Some MarkO, Some MarkX, Some MarkX] MarkO
   \<and> isGameOver [Some MarkX, Some MarkO, Some MarkX, Some MarkX, Some MarkO, Some MarkO,
           Some MarkO, Some MarkX, Some MarkX]"
proof -
  define ex where "ex = [Some MarkX, Some MarkO, Some MarkX, Some MarkX, Some MarkO, Some MarkO,
      Some MarkO, Some MarkX, Some MarkX]"
  have len: "length ex = 9" by (simp add: ex_def)
  have other: "\<not> determineWinner ex (otherMark MarkO)"
    by (simp add: ex_def determineWinner_def lineFull_def winningCombinations_def otherMark_def)
  have "list_all (\<lambda>c. c \<noteq> None) ex" by (simp add: ex_def)
  then have full: "\<forall>i<9. ex ! i \<noteq> None"
    by (simp only: list_all_nth9 [OF len])
  from draw_checks [OF len, of MarkO] other full show ?thesis
    unfolding ex_def by blast
qed

text \<open>
  Claim C9 as stated fails for the local check: on the full board X X X / O O X / X O O,
  which a game reaches when X completes the top row with the ninth mark,
  \<^verbatim>\<open>isGameOver\<close> is true although \<^verbatim>\<open>checkWinner\<close> returns X.
\<close>

theorem isGameOver_with_winner_counterexample:
  "length [Some MarkX, Some MarkX, Some MarkX, Some MarkO, Some MarkO, Some MarkX,
           Some MarkX, Some MarkO, Some MarkO] = 9
   \<and> isGameOver [Some MarkX, Some MarkX, Some MarkX, Some MarkO, Some MarkO, Some MarkX,
           Some MarkX, Some MarkO, Some MarkO]
   \<and> checkWinner [Some MarkX, Some MarkX, Some MarkX, Some MarkO, Some MarkO, Some MarkX,
           Some MarkX, Some MarkO, Some MarkO] = Some MarkX"
  by (simp add: isGameOver_def checkWinner_def winningCombinations_def)

text \<open>
  What the guards achieve. A \<^verbatim>\<open>makeMove\<close> request with a payload object that is
  illegal (the room's game is not active, the index is not an integer of 0..8, the cell is
  occupied, or the socket's mark is not the current player) leaves the whole server state
  as it was: the room's board, current player, active flag and statistics, and nothing is
  emitted. The same holds for a socket that joined no lobby, and for the local handler
  \<^verbatim>\<open>handlePlayerMove\<close> on a click on a cell that it refuses (game over, cell occupied,
  move in progress, or online and not this client's turn): the state is unchanged and no
  timer is set.
\<close>

theorem illegal_move_is_noop:
  assumes "dataLobbyId (socketsData s sid) = Some l" and "rooms s l = Some r"
    and "\<not> isActive r \<or> index = NotInteger
         \<or> (\<exists>i. index = IntIndex i \<and> (i < 0 \<or> 8 < i \<or> board r ! nat i \<noteq> None))
         \<or> dataMark (socketsData s sid) \<noteq> Some (currentPlayer r)"
  shows "makeMove s sid index = s
       \<and> (dataLobbyId (socketsData s' sid') = None \<longrightarrow> makeMove s' sid' index' = s')
       \<and> (\<not> isGameCurrentlyActive c \<or> currentGameBoard c ! k \<noteq> None \<or> isProcessingMove c
            \<or> (onlineMode c \<and> (myMark c \<noteq> Some (localCurrentPlayer c) \<or> \<not> socketOpen c))
          \<longrightarrow> handlePlayerMove c k = (c, None))"
  using makeMove_illegal [OF assms] makeMove_no_lobby [of s' sid' index']
    handlePlayerMove_illegal [of c k] by blast

theorem illegal_move_is_noop_witness:
  "makeMove (serve [JoinLobby 1 (Some ''a'') None, JoinLobby 2 (Some ''a'') None]) 2 (IntIndex 0)
     = serve [JoinLobby 1 (Some ''a'') None, JoinLobby 2 (Some ''a'') None]
   \<and> makeMove (serve [JoinLobby 1 (Some ''a'') None, JoinLobby 2 (Some ''a'') None]) 1 (IntIndex 9)
     = serve [JoinLobby 1 (Some ''a'') None, JoinLobby 2 (Some ''a'') None]
   \<and> makeMove (serve [JoinLobby 1 (Some ''a'') None, JoinLobby 2 (Some ''a'') None]) 3 (IntIndex 0)
     = serve [JoinLobby 1 (Some ''a'') None, JoinLobby 2 (Some ''a'') None]
   \<and> handlePlayerMove (initialClient\<lparr>isGameCurrentlyActive := False\<rparr>) 3
     = (initialClient\<lparr>isGameCurrentlyActive := False\<rparr>, None)"
proof -
  define s where "s = serve [JoinLobby 1 (Some ''a'') None, JoinLobby 2 (Some ''a'') None]"
  have l1: "dataLobbyId (socketsData s 1) = Some ''a''" and l2: "dataLobbyId (socketsData s 2) = Some ''a''"
    and l3: "dataLobbyId (socketsData s 3) = None"
    and m2: "dataMark (socketsData s 2) = Some MarkO"
    and r: "rooms s ''a'' = Some (newRoomState\<lparr>players := [2, 1]\<rparr>)"
    by (simp_all add: s_def serve_def joinLobby_def getRoom_def initialServer_def newRoomState_def
        trim_a Let_def)
  have turn: "dataMark (socketsData s 2) \<noteq> Some (currentPlayer (newRoomState\<lparr>players := [2, 1]\<rparr>))"
    by (simp add: m2 newRoomState_def)
  have a: "makeMove s 2 (IntIndex 0) = s"
    using illegal_move_is_noop [OF l2 r, of "IntIndex 0" s 2 "IntIndex 0" initialClient 0] turn by blast
  have b: "makeMove s 1 (IntIndex 9) = s"
    using illegal_move_is_noop [OF l1 r, of "IntIndex 9" s 1 "IntIndex 9" initialClient 0] by simp
  have c: "makeMove s 3 (IntIndex 0) = s
      \<and> handlePlayerMove (initialClient\<lparr>isGameCurrentlyActive := False\<rparr>) 3
      = (initialClient\<lparr>isGameCurrentlyActive := False\<rparr>, None)"
    using illegal_move_is_noop [OF l1 r, of "IntIndex 9" s 3 "IntIndex 0"
        "initialClient\<lparr>isGameCurrentlyActive := False\<rparr>" 3] l3 by simp
  from a b c show ?thesis unfolding s_def by blast
qed

text \<open>
  Claim C2. An illegal move is not always a silent no-op: two illegal moves end in an
  uncaught \<^verbatim>\<open>TypeError\<close>. On the server, sockets 1 and 2 have joined lobby \<open>a\<close> and
  hold X and O, and it is X's turn; a \<^verbatim>\<open>makeMove\<close> request of socket 2 is illegal
  whatever it carries. Sent without a payload it makes the listener throw, while the same
  request with a payload object that has no integer index is dropped and leaves the state
  as it was. In the page, in offline two-player mode, X has taken cell 4 and it is O's
  turn; a click on the mark drawn in cell 4, an occupied cell, passes the guards of
  \<^verbatim>\<open>handlePlayerMove\<close>, which sets \<^verbatim>\<open>isProcessingMove\<close>, removes the listeners and
  throws. The board, the current player, the active flag and the statistics are as
  before, but from then on a click on an empty cell changes nothing any more.
\<close>

theorem illegal_move_raises_TypeError:
  "dataLobbyId (socketsData (serve [JoinLobby 1 (Some ''a'') None, JoinLobby 2 (Some ''a'') None]) 2)
     = Some ''a''
   \<and> dataMark (socketsData (serve [JoinLobby 1 (Some ''a'') None, JoinLobby 2 (Some ''a'') None]) 2)
     = Some MarkO
   \<and> map_option currentPlayer
       (rooms (serve [JoinLobby 1 (Some ''a'') None, JoinLobby 2 (Some ''a'') None]) ''a'')
     = Some MarkX
   \<and> onMakeMove (serve [JoinLobby 1 (Some ''a'') None, JoinLobby 2 (Some ''a'') None]) 2 None
     = Inl TypeError
   \<and> onMakeMove (serve [JoinLobby 1 (Some ''a'') None, JoinLobby 2 (Some ''a'') None]) 2
       (Some NotInteger)
     = Inr (serve [JoinLobby 1 (Some ''a'') None, JoinLobby 2 (Some ''a'') None])
   \<and> currentGameBoard (cellClick 0 (creategameBoard (initialClient\<lparr>gameMode := Pvp\<rparr>)) 4) ! 4
     = Some MarkX
   \<and> isGameCurrentlyActive (cellClick 0 (creategameBoard (initialClient\<lparr>gameMode := Pvp\<rparr>)) 4)
   \<and> innerClick (cellClick 0 (creategameBoard (initialClient\<lparr>gameMode := Pvp\<rparr>)) 4)
     = ((cellClick 0 (creategameBoard (initialClient\<lparr>gameMode := Pvp\<rparr>)) 4)
          \<lparr>isProcessingMove := True, clicksEnabled := False\<rparr>, Some TypeError)
   \<and> cellClick 0 (fst (innerClick (cellClick 0 (creategameBoard (initialClient\<lparr>gameMode := Pvp\<rparr>)) 4))) 0
     = fst (innerClick (cellClick 0 (creategameBoard (initialClient\<lparr>gameMode := Pvp\<rparr>)) 4))"
proof -
  define s where "s = serve [JoinLobby 1 (Some ''a'') None, JoinLobby 2 (Some ''a'') None]"
  have l2: "dataLobbyId (socketsData s 2) = Some ''a''"
    and m2: "dataMark (socketsData s 2) = Some MarkO"
    and r: "rooms s ''a'' = Some (newRoomState\<lparr>players := [2, 1]\<rparr>)"
    by (simp_all add: s_def serve_def joinLobby_def getRoom_def initialServer_def newRoomState_def
        trim_a Let_def)
  have turn: "map_option currentPlayer (rooms s ''a'') = Some MarkX"
    by (simp add: r newRoomState_def)
  have thrown: "onMakeMove s 2 None = Inl TypeError" by (simp add: onMakeMove_def)
  have dropped: "onMakeMove s 2 (Some NotInteger) = Inr s"
    by (simp add: onMakeMove_def makeMove_def l2 r getRoom_def)
  define c where "c = cellClick 0 (creategameBoard (initialClient\<lparr>gameMode := Pvp\<rparr>)) 4"
  have c: "c = initialClient\<lparr>gameMode := Pvp, localCurrentPlayer := MarkO, clicksEnabled := True,
      currentGameBoard := [None, None, None, None, Some MarkX, None, None, None, None]\<rparr>"
    unfolding c_def
    by (simp add: cellClick_def creategameBoard_def initialClient_def handlePlayerMove_run_def
        handlePlayerMove_def handlePlayerMove_timeout_def determineWinner_def isGameOver_def
        lineFull_def winningCombinations_def eval_nat_numeral Let_def)
  have occupied: "currentGameBoard c ! 4 = Some MarkX" and active: "isGameCurrentlyActive c"
    by (simp_all add: c initialClient_def)
  have inner: "innerClick c = (c\<lparr>isProcessingMove := True, clicksEnabled := False\<rparr>, Some TypeError)"
    by (simp add: c innerClick_def handlePlayerMove_noIndex_def initialClient_def)
  have stuck: "cellClick 0 (fst (innerClick c)) 0 = fst (innerClick c)"
    by (simp add: inner cellClick_def)
  from l2 m2 turn thrown dropped occupied active inner stuck show ?thesis
    unfolding s_def c_def by blast
qed

text \<open>
  Claim C6. A legal move on the server (room active, index in 0..8, cell empty, the
  socket's mark is the current player) writes the mark; if the new board has a winner or
  is a draw the room becomes inactive and the current player stays, otherwise the room
  stays active and the current player flips. The local engine in offline two-player mode
  does the same with the mark of the current player, its winner test being
  \<^verbatim>\<open>determineWinner\<close> for that mark and its draw test \<^verbatim>\<open>isGameOver\<close>.
\<close>

theorem turn_flips_unless_game_ends:
  "(dataLobbyId (socketsData s sid) = Some l \<and> rooms s l = Some r \<and> length (board r) = 9
      \<and> isActive r \<and> 0 \<le> i \<and> i \<le> 8 \<and> board r ! nat i = None
      \<and> dataMark (socketsData s sid) = Some (currentPlayer r)
    \<longrightarrow> (\<exists>r'. rooms (makeMove s sid (IntIndex i)) l = Some r'
           \<and> board r' = (board r)[nat i := Some (currentPlayer r)]
           \<and> (if checkWinner (board r') \<noteq> None \<or> isDraw (board r')
               then \<not> isActive r' \<and> currentPlayer r' = currentPlayer r
               else isActive r' \<and> currentPlayer r' = otherMark (currentPlayer r))))
   \<and> (gameMode c = Pvp \<and> \<not> onlineMode c \<and> isGameCurrentlyActive c \<and> \<not> isProcessingMove c
      \<and> length (currentGameBoard c) = 9 \<and> k < 9 \<and> currentGameBoard c ! k = None
    \<longrightarrow> currentGameBoard (handlePlayerMove_run rnd c k)
           = (currentGameBoard c)[k := Some (localCurrentPlayer c)]
        \<and> (if determineWinner (currentGameBoard (handlePlayerMove_run rnd c k)) (localCurrentPlayer c)
               \<or> isGameOver (currentGameBoard (handlePlayerMove_run rnd c k))
            then \<not> isGameCurrentlyActive (handlePlayerMove_run rnd c k)
                 \<and> localCurrentPlayer (handlePlayerMove_run rnd c k) = localCurrentPlayer c
            else isGameCurrentlyActive (handlePlayerMove_run rnd c k)
                 \<and> localCurrentPlayer (handlePlayerMove_run rnd c k) = otherMark (localCurrentPlayer c)))"
proof (intro conjI impI)
  assume a: "dataLobbyId (socketsData s sid) = Some l \<and> rooms s l = Some r \<and> length (board r) = 9
      \<and> isActive r \<and> 0 \<le> i \<and> i \<le> 8 \<and> board r ! nat i = None
      \<and> dataMark (socketsData s sid) = Some (currentPlayer r)"
  then have mv: "makeMove s sid (IntIndex i) =
      s\<lparr>rooms := (rooms s)(l \<mapsto> placeMark r (nat i) (currentPlayer r)),
        emitted := emitted s @ [ToLobby l (RoomState (placeMark r (nat i) (currentPlayer r)) l None)]\<rparr>"
    by (intro makeMove_legal) simp_all
  have "rooms (makeMove s sid (IntIndex i)) l = Some (placeMark r (nat i) (currentPlayer r))"
    unfolding mv by simp
  moreover have "board (placeMark r (nat i) (currentPlayer r)) = (board r)[nat i := Some (currentPlayer r)]"
    using placeMark_turn [of r "nat i" "currentPlayer r"] by blast
  moreover have "if checkWinner (board (placeMark r (nat i) (currentPlayer r))) \<noteq> None
        \<or> isDraw (board (placeMark r (nat i) (currentPlayer r)))
      then \<not> isActive (placeMark r (nat i) (currentPlayer r))
           \<and> currentPlayer (placeMark r (nat i) (currentPlayer r)) = currentPlayer r
      else isActive (placeMark r (nat i) (currentPlayer r))
           \<and> currentPlayer (placeMark r (nat i) (currentPlayer r)) = otherMark (currentPlayer r)"
    using placeMark_turn [of r "nat i" "currentPlayer r"] a by (simp split: if_splits)
  ultimately show "\<exists>r'. rooms (makeMove s sid (IntIndex i)) l = Some r'
      \<and> board r' = (board r)[nat i := Some (currentPlayer r)]
      \<and> (if checkWinner (board r') \<noteq> None \<or> isDraw (board r')
          then \<not> isActive r' \<and> currentPlayer r' = currentPlayer r
          else isActive r' \<and> currentPlayer r' = otherMark (currentPlayer r))"
    by blast
next
  assume a: "gameMode c = Pvp \<and> \<not> onlineMode c \<and> isGameCurrentlyActive c \<and> \<not> isProcessingMove c
      \<and> length (currentGameBoard c) = 9 \<and> k < 9 \<and> currentGameBoard c ! k = None"
  then have p: "gameMode c = Pvp" "\<not> onlineMode c" "isGameCurrentlyActive c" "\<not> isProcessingMove c"
    "currentGameBoard c ! k = None" by simp_all
  show "currentGameBoard (handlePlayerMove_run rnd c k)
      = (currentGameBoard c)[k := Some (localCurrentPlayer c)]"
    using handlePlayerMove_run_pvp [OF p, of rnd] by blast
  show "if determineWinner (currentGameBoard (handlePlayerMove_run rnd c k)) (localCurrentPlayer c)
        \<or> isGameOver (currentGameBoard (handlePlayerMove_run rnd c k))
      then \<not> isGameCurrentlyActive (handlePlayerMove_run rnd c k)
           \<and> localCurrentPlayer (handlePlayerMove_run rnd c k) = localCurrentPlayer c
      else isGameCurrentlyActive (handlePlayerMove_run rnd c k)
           \<and> localCurrentPlayer (handlePlayerMove_run rnd c k) = otherMark (localCurrentPlayer c)"
    using handlePlayerMove_run_pvp [OF p, of rnd] by blast
qed

theorem turn_flips_unless_game_ends_witness:
  "(\<exists>r'. rooms (makeMove (serve [JoinLobby 1 (Some ''a'') None, JoinLobby 2 (Some ''a'') None])
           1 (IntIndex 4)) ''a'' = Some r'
      \<and> isActive r' \<and> currentPlayer r' = MarkO)
   \<and> localCurrentPlayer (handlePlayerMove_run 0 (creategameBoard (initialClient\<lparr>gameMode := Pvp\<rparr>)) 4)
      = MarkO"
proof -
  define s where "s = serve [JoinLobby 1 (Some ''a'') None, JoinLobby 2 (Some ''a'') None]"
  define r where "r = newRoomState\<lparr>players := [2, 1]\<rparr>"
  define c where "c = creategameBoard (initialClient\<lparr>gameMode := Pvp\<rparr>)"
  have l1: "dataLobbyId (socketsData s 1) = Some ''a''"
    and m1: "dataMark (socketsData s 1) = Some MarkX"
    and r: "rooms s ''a'' = Some r"
    by (simp_all add: s_def r_def serve_def joinLobby_def getRoom_def initialServer_def
        newRoomState_def trim_a Let_def)
  have rf: "length (board r) = 9" "isActive r" "board r ! nat 4 = None" "currentPlayer r = MarkX"
    by (simp_all add: r_def newRoomState_def eval_nat_numeral)
  have nw: "checkWinner ((board r)[nat 4 := Some MarkX]) = None"
    "\<not> isDraw ((board r)[nat 4 := Some MarkX])"
    by (simp_all add: r_def newRoomState_def checkWinner_def winningCombinations_def isDraw_def
        eval_nat_numeral)
  have cf: "gameMode c = Pvp" "\<not> onlineMode c" "isGameCurrentlyActive c" "\<not> isProcessingMove c"
    "length (currentGameBoard c) = 9" "currentGameBoard c ! 4 = None" "localCurrentPlayer c = MarkX"
    "currentGameBoard c = replicate 9 None"
    by (simp_all add: c_def creategameBoard_def initialClient_def)
  have nl: "\<not> determineWinner ((replicate 9 None)[4 := Some MarkX]) MarkX"
    "\<not> isGameOver ((replicate 9 None)[4 := Some MarkX])"
    by (simp_all add: determineWinner_def lineFull_def winningCombinations_def isGameOver_def
        eval_nat_numeral)
  have t: "(\<exists>r'. rooms (makeMove s 1 (IntIndex 4)) ''a'' = Some r'
           \<and> board r' = (board r)[nat 4 := Some (currentPlayer r)]
           \<and> (if checkWinner (board r') \<noteq> None \<or> isDraw (board r')
               then \<not> isActive r' \<and> currentPlayer r' = currentPlayer r
               else isActive r' \<and> currentPlayer r' = otherMark (currentPlayer r)))
     \<and> currentGameBoard (handlePlayerMove_run 0 c 4) = (currentGameBoard c)[4 := Some (localCurrentPlayer c)]
     \<and> (if determineWinner (currentGameBoard (handlePlayerMove_run 0 c 4)) (localCurrentPlayer c)
               \<or> isGameOver (currentGameBoard (handlePlayerMove_run 0 c 4))
         then \<not> isGameCurrentlyActive (handlePlayerMove_run 0 c 4)
              \<and> localCurrentPlayer (handlePlayerMove_run 0 c 4) = localCurrentPlayer c
         else isGameCurrentlyActive (handlePlayerMove_run 0 c 4)
              \<and> localCurrentPlayer (handlePlayerMove_run 0 c 4) = otherMark (localCurrentPlayer c))"
    using turn_flips_unless_game_ends [of s 1 "''a''" r 4 c 4 0] l1 m1 r rf cf by simp
  then obtain r' where r': "rooms (makeMove s 1 (IntIndex 4)) ''a'' = Some r'"
    "board r' = (board r)[nat 4 := Some MarkX]"
    "if checkWinner (board r') \<noteq> None \<or> isDraw (board r')
     then \<not> isActive r' \<and> currentPlayer r' = currentPlayer r
     else isActive r' \<and> currentPlayer r' = otherMark (currentPlayer r)"
    using rf(4) by auto
  from r'(2,3) nw have "isActive r' \<and> currentPlayer r' = MarkO"
    by (simp add: rf(4) otherMark_def)
  moreover from t nl have "localCurrentPlayer (handlePlayerMove_run 0 c 4) = MarkO"
    by (simp add: cf(7,8) otherMark_def)
  ultimately show ?thesis using r' unfolding s_def c_def by blast
qed

text \<open>
  Claim C8 (amended). \<^verbatim>\<open>newGame\<close> on the server sets the room's board to nine empty cells,
  the current player to X and the room active, and leaves the room's statistics unchanged.
  The local \<^verbatim>\<open>creategameBoard\<close> sets the board to nine empty cells and the game active
  and leaves every counter unchanged; it sets the current player to X, except in the
  offline two-player mode with \<^verbatim>\<open>playerXStartsFirst\<close> off, where it sets it to O.
\<close>

theorem reset_restarts_board_keeps_stats:
  "(dataLobbyId (socketsData s sid) = Some l \<and> rooms s l = Some r
    \<longrightarrow> (\<exists>r'. rooms (newGame s sid) l = Some r' \<and> board r' = replicate 9 None
           \<and> currentPlayer r' = MarkX \<and> isActive r' \<and> stats r' = stats r))
   \<and> currentGameBoard (creategameBoard c) = replicate 9 None
   \<and> isGameCurrentlyActive (creategameBoard c)
   \<and> statistics (creategameBoard c) = statistics c
   \<and> localCurrentPlayer (creategameBoard c)
      = (if gameMode c = Pvp \<and> \<not> onlineMode c \<and> \<not> playerXStartsFirst c then MarkO else MarkX)"
proof (intro conjI impI)
  assume a: "dataLobbyId (socketsData s sid) = Some l \<and> rooms s l = Some r"
  then have "rooms (newGame s sid) l
      = Some ((fst (getRoom s l))\<lparr>board := replicate 9 None, currentPlayer := MarkX, isActive := True\<rparr>)"
    by (intro newGame_room) simp
  moreover have "fst (getRoom s l) = r"
    using a by (simp add: getRoom_Some)
  ultimately show "\<exists>r'. rooms (newGame s sid) l = Some r' \<and> board r' = replicate 9 None
      \<and> currentPlayer r' = MarkX \<and> isActive r' \<and> stats r' = stats r"
    by simp
qed (simp_all add: creategameBoard_fields)

theorem reset_restarts_board_keeps_stats_witness:
  "(\<exists>r'. rooms (newGame (serve [JoinLobby 1 (Some ''a'') None, MakeMove 1 (IntIndex 0)]) 1) ''a''
           = Some r'
      \<and> board r' = replicate 9 None \<and> currentPlayer r' = MarkX \<and> isActive r')
   \<and> localCurrentPlayer (creategameBoard initialClient) = MarkX"
proof -
  define s where "s = serve [JoinLobby 1 (Some ''a'') None, MakeMove 1 (IntIndex 0)]"
  have l1: "dataLobbyId (socketsData s 1) = Some ''a''"
    by (simp add: s_def serve_def joinLobby_def makeMove_def getRoom_def initialServer_def
        newRoomState_def trim_a Let_def)
  have "rooms s ''a'' \<noteq> None"
    by (simp add: s_def serve_def joinLobby_def makeMove_def getRoom_def initialServer_def
        newRoomState_def trim_a Let_def)
  then obtain r where r: "rooms s ''a'' = Some r" by auto
  have g: "gameMode initialClient \<noteq> Pvp" by (simp add: initialClient_def)
  show ?thesis
    using reset_restarts_board_keeps_stats [of s 1 "''a''" r initialClient] l1 r g
    unfolding s_def by auto
qed

text \<open>
  Claim C8 as stated fails for the local reset: in the offline two-player mode with O
  chosen to start, \<^verbatim>\<open>creategameBoard\<close> leaves an empty, active board with O to move.
\<close>

theorem creategameBoard_O_starts_counterexample:
  "currentGameBoard (creategameBoard (initialClient\<lparr>gameMode := Pvp, playerXStartsFirst := False\<rparr>))
     = replicate 9 None
   \<and> isGameCurrentlyActive (creategameBoard (initialClient\<lparr>gameMode := Pvp, playerXStartsFirst := False\<rparr>))
   \<and> localCurrentPlayer (creategameBoard (initialClient\<lparr>gameMode := Pvp, playerXStartsFirst := False\<rparr>))
     = MarkO"
  by (simp add: creategameBoard_def initialClient_def)

text \<open>
  Claim C10. In every state the server reaches from its start by \<^verbatim>\<open>joinLobby\<close>,
  \<^verbatim>\<open>makeMove\<close>, \<^verbatim>\<open>newGame\<close> and \<^verbatim>\<open>resetStats\<close> requests, every room's counters
  satisfy \<open>xWins + oWins + draws = totalGames\<close>.
\<close>

theorem stats_sum_is_totalGames:
  assumes "rooms (serve requests) l = Some r"
  shows "xWins (stats r) + oWins (stats r) + draws (stats r) = totalGames (stats r)"
  using serve_balanced assms by blast

theorem stats_sum_is_totalGames_witness:
  "\<exists>r. rooms (serve [JoinLobby 1 (Some ''a'') None, JoinLobby 2 (Some ''a'') None,
      MakeMove 1 (IntIndex 0), MakeMove 2 (IntIndex 3), MakeMove 1 (IntIndex 1),
      MakeMove 2 (IntIndex 4), MakeMove 1 (IntIndex 2)]) ''a'' = Some r
    \<and> totalGames (stats r) = 1
    \<and> xWins (stats r) + oWins (stats r) + draws (stats r) = totalGames (stats r)"
proof -
  have "\<exists>r. rooms (serve [JoinLobby 1 (Some ''a'') None, JoinLobby 2 (Some ''a'') None,
      MakeMove 1 (IntIndex 0), MakeMove 2 (IntIndex 3), MakeMove 1 (IntIndex 1),
      MakeMove 2 (IntIndex 4), MakeMove 1 (IntIndex 2)]) ''a'' = Some r
    \<and> totalGames (stats r) = 1"
    by (simp add: serve_def joinLobby_def makeMove_def placeMark_def getRoom_def initialServer_def
        newRoomState_def trim_a Let_def checkWinner_def winningCombinations_def isDraw_def
        eval_nat_numeral)
  then obtain r where r: "rooms (serve [JoinLobby 1 (Some ''a'') None, JoinLobby 2 (Some ''a'') None,
      MakeMove 1 (IntIndex 0), MakeMove 2 (IntIndex 3), MakeMove 1 (IntIndex 1),
      MakeMove 2 (IntIndex 4), MakeMove 1 (IntIndex 2)]) ''a'' = Some r"
    and t: "totalGames (stats r) = 1" by blast
  from stats_sum_is_totalGames [OF r] r t show ?thesis by blast
qed

section \<open>The computer opponent\<close>

subsection \<open>Empty cells and the choice of the best move\<close>

lemma getEmptyIndices_eq:
  "getEmptyIndices b = filter (\<lambda>i. b ! i = None) [0..<length b]"
proof -
  have "map (\<lambda>(index, v). if v = None then Some index else None) (enumerate 0 b)
      = map (\<lambda>i. if b ! i = None then Some i else None) [0..<length b]"
    by (rule nth_equalityI) (simp_all add: nth_enumerate_eq)
  moreover have "map the (filter (\<lambda>index. index \<noteq> None)
      (map (\<lambda>i. if b ! i = None then Some i else None) xs)) = filter (\<lambda>i. b ! i = None) xs" for xs
    by (induction xs) auto
  ultimately show ?thesis by (simp add: getEmptyIndices_def)
qed

lemma set_getEmptyIndices: "i \<in> set (getEmptyIndices b) \<longleftrightarrow> i < length b \<and> b ! i = None"
  by (auto simp: getEmptyIndices_eq)

lemma getEmptyIndices_sorted: "sorted_wrt (<) (getEmptyIndices b)"
  by (simp add: getEmptyIndices_eq sorted_wrt_filter)

lemma isBoardFull_iff: "isBoardFull b \<longleftrightarrow> getEmptyIndices b = []"
  by (auto simp: isBoardFull_def getEmptyIndices_eq list_all_length filter_empty_conv)

lemma pushMoves_map:
  assumes "\<forall>i \<in> set xs. f i \<noteq> None"
  shows "pushMoves (map (\<lambda>i. (i, f i)) xs) = Some (map (\<lambda>i. (Some i, snd (the (f i)))) xs)"
  using assms by (induction xs) auto

lemma bestMax_step:
  "\<exists>k'. bestMax ms i (Some s) (Some k0) = Some k' \<and>
     ((k' = k0 \<and> (\<forall>j < length ms. snd (ms ! j) \<le> s)) \<or>
      (\<exists>j < length ms. k' = i + j \<and> s < snd (ms ! j) \<and>
         (\<forall>j' < length ms. snd (ms ! j') \<le> snd (ms ! j)) \<and>
         (\<forall>j' < j. snd (ms ! j') < snd (ms ! j))))"
proof (induction ms arbitrary: i s k0)
  case Nil
  show ?case by simp
next
  case (Cons m ms)
  show ?case
  proof (cases "s < snd m")
    case True
    then have eq: "bestMax (m # ms) i (Some s) (Some k0) = bestMax ms (i + 1) (Some (snd m)) (Some i)"
      by simp
    from Cons.IH [of "i + 1" "snd m" i] obtain k' where k': "bestMax ms (i + 1) (Some (snd m)) (Some i) = Some k'"
      and alt: "(k' = i \<and> (\<forall>j < length ms. snd (ms ! j) \<le> snd m)) \<or>
      (\<exists>j < length ms. k' = i + 1 + j \<and> snd m < snd (ms ! j) \<and>
         (\<forall>j' < length ms. snd (ms ! j') \<le> snd (ms ! j)) \<and>
         (\<forall>j' < j. snd (ms ! j') < snd (ms ! j)))" by blast
    from alt show ?thesis
    proof
      assume a: "k' = i \<and> (\<forall>j < length ms. snd (ms ! j) \<le> snd m)"
      have "\<forall>j' < length (m # ms). snd ((m # ms) ! j') \<le> snd ((m # ms) ! 0)"
        using a by (auto simp: nth_Cons split: nat.splits)
      with a True k' show ?thesis
        unfolding eq by (intro exI[of _ k'] conjI disjI2 exI[of _ 0]) auto
    next
      assume "\<exists>j < length ms. k' = i + 1 + j \<and> snd m < snd (ms ! j) \<and>
         (\<forall>j' < length ms. snd (ms ! j') \<le> snd (ms ! j)) \<and>
         (\<forall>j' < j. snd (ms ! j') < snd (ms ! j))"
      then obtain j where j: "j < length ms" "k' = i + 1 + j" "snd m < snd (ms ! j)"
        "\<forall>j' < length ms. snd (ms ! j') \<le> snd (ms ! j)" "\<forall>j' < j. snd (ms ! j') < snd (ms ! j)"
        by blast
      have 1: "\<forall>j' < length (m # ms). snd ((m # ms) ! j') \<le> snd ((m # ms) ! Suc j)"
        using j by (auto simp: nth_Cons split: nat.splits)
      have 2: "\<forall>j' < Suc j. snd ((m # ms) ! j') < snd ((m # ms) ! Suc j)"
        using j by (auto simp: nth_Cons split: nat.splits)
      have 3: "s < snd ((m # ms) ! Suc j)" using True j(3) by simp
      show ?thesis
        unfolding eq using k' j(1,2) 1 2 3
        by (intro exI[of _ k'] conjI disjI2 exI[of _ "Suc j"]) auto
    qed
  next
    case False
    then have eq: "bestMax (m # ms) i (Some s) (Some k0) = bestMax ms (i + 1) (Some s) (Some k0)"
      by simp
    from Cons.IH [of "i + 1" s k0] obtain k' where k': "bestMax ms (i + 1) (Some s) (Some k0) = Some k'"
      and alt: "(k' = k0 \<and> (\<forall>j < length ms. snd (ms ! j) \<le> s)) \<or>
      (\<exists>j < length ms. k' = i + 1 + j \<and> s < snd (ms ! j) \<and>
         (\<forall>j' < length ms. snd (ms ! j') \<le> snd (ms ! j)) \<and>
         (\<forall>j' < j. snd (ms ! j') < snd (ms ! j)))" by blast
    from alt show ?thesis
    proof
      assume a: "k' = k0 \<and> (\<forall>j < length ms. snd (ms ! j) \<le> s)"
      have "\<forall>j < length (m # ms). snd ((m # ms) ! j) \<le> s"
        using a False by (auto simp: nth_Cons split: nat.splits)
      with a k' show ?thesis unfolding eq by blast
    next
      assume "\<exists>j < length ms. k' = i + 1 + j \<and> s < snd (ms ! j) \<and>
         (\<forall>j' < length ms. snd (ms ! j') \<le> snd (ms ! j)) \<and>
         (\<forall>j' < j. snd (ms ! j') < snd (ms ! j))"
      then obtain j where j: "j < length ms" "k' = i + 1 + j" "s < snd (ms ! j)"
        "\<forall>j' < length ms. snd (ms ! j') \<le> snd (ms ! j)" "\<forall>j' < j. snd (ms ! j') < snd (ms ! j)"
        by blast
      have 1: "\<forall>j' < length (m # ms). snd ((m # ms) ! j') \<le> snd ((m # ms) ! Suc j)"
        using j False by (auto simp: nth_Cons split: nat.splits)
      have 2: "\<forall>j' < Suc j. snd ((m # ms) ! j') < snd ((m # ms) ! Suc j)"
        using j False by (auto simp: nth_Cons split: nat.splits)
      have 3: "s < snd ((m # ms) ! Suc j)" using j(3) by simp
      show ?thesis
        unfolding eq using k' j(1,2) 1 2 3
        by (intro exI[of _ k'] conjI disjI2 exI[of _ "Suc j"]) auto
    qed
  qed
qed

lemma bestMax_first_maximum:
  assumes "ms \<noteq> []"
  shows "\<exists>k < length ms. bestMax ms 0 None None = Some k \<and>
           (\<forall>j < length ms. snd (ms ! j) \<le> snd (ms ! k)) \<and>
           (\<forall>j < k. snd (ms ! j) < snd (ms ! k))"
proof -
  obtain m rest where ms: "ms = m # rest" using assms by (cases ms) auto
  have eq: "bestMax ms 0 None None = bestMax rest 1 (Some (snd m)) (Some 0)"
    by (simp add: ms)
  from bestMax_step [of rest 1 "snd m" 0] obtain k' where k': "bestMax rest 1 (Some (snd m)) (Some 0) = Some k'"
    and alt: "(k' = 0 \<and> (\<forall>j < length rest. snd (rest ! j) \<le> snd m)) \<or>
      (\<exists>j < length rest. k' = 1 + j \<and> snd m < snd (rest ! j) \<and>
         (\<forall>j' < length rest. snd (rest ! j') \<le> snd (rest ! j)) \<and>
         (\<forall>j' < j. snd (rest ! j') < snd (rest ! j)))" by blast
  from alt show ?thesis
  proof
    assume a: "k' = 0 \<and> (\<forall>j < length rest. snd (rest ! j) \<le> snd m)"
    have "\<forall>j < length ms. snd (ms ! j) \<le> snd (ms ! 0)"
      using a by (auto simp: ms nth_Cons split: nat.splits)
    with a k' show ?thesis unfolding eq by (intro exI[of _ 0]) (simp add: ms)
  next
    assume "\<exists>j < length rest. k' = 1 + j \<and> snd m < snd (rest ! j) \<and>
         (\<forall>j' < length rest. snd (rest ! j') \<le> snd (rest ! j)) \<and>
         (\<forall>j' < j. snd (rest ! j') < snd (rest ! j))"
    then obtain j where j: "j < length rest" "k' = 1 + j" "snd m < snd (rest ! j)"
      "\<forall>j' < length rest. snd (rest ! j') \<le> snd (rest ! j)" "\<forall>j' < j. snd (rest ! j') < snd (rest ! j)"
      by blast
    have 1: "\<forall>j' < length ms. snd (ms ! j') \<le> snd (ms ! Suc j)"
      using j by (auto simp: ms nth_Cons split: nat.splits)
    have 2: "\<forall>j' < Suc j. snd (ms ! j') < snd (ms ! Suc j)"
      using j by (auto simp: ms nth_Cons split: nat.splits)
    show ?thesis unfolding eq using k' j(1,2) 1 2 by (intro exI[of _ "Suc j"]) (simp add: ms)
  qed
qed

lemma bestMin_as_bestMax:
  "bestMin ms i bs bm = bestMax (map (\<lambda>m. (fst m, - snd m)) ms) i (map_option uminus bs) bm"
  by (induction ms arbitrary: i bs bm) (auto split: option.splits)

lemma bestMin_first_minimum:
  assumes "ms \<noteq> []"
  shows "\<exists>k < length ms. bestMin ms 0 None None = Some k \<and>
           (\<forall>j < length ms. snd (ms ! k) \<le> snd (ms ! j)) \<and>
           (\<forall>j < k. snd (ms ! k) < snd (ms ! j))"
proof -
  have ne: "map (\<lambda>m. (fst m, - snd m)) ms \<noteq> []" using assms by simp
  from bestMax_first_maximum [OF ne] obtain k where k: "k < length ms"
    "bestMax (map (\<lambda>m. (fst m, - snd m)) ms) 0 None None = Some k"
    "\<forall>j < length ms. snd (map (\<lambda>m. (fst m, - snd m)) ms ! j) \<le> snd (map (\<lambda>m. (fst m, - snd m)) ms ! k)"
    "\<forall>j < k. snd (map (\<lambda>m. (fst m, - snd m)) ms ! j) < snd (map (\<lambda>m. (fst m, - snd m)) ms ! k)"
    by auto
  have "bestMin ms 0 None None = Some k"
    using k(2) by (simp add: bestMin_as_bestMax)
  moreover have "\<forall>j < length ms. snd (ms ! k) \<le> snd (ms ! j)"
    using k(1,3) by auto
  moreover have "\<forall>j < k. snd (ms ! k) < snd (ms ! j)"
    using k(1,4) by auto
  ultimately show ?thesis using k(1) by blast
qed

subsection \<open>The search: results, totality, first best move\<close>

lemma minimax_won:
  "checkWinner b = Some maxP \<Longrightarrow> minimax b d m maxP = Some (None, 10 - d)"
  by (subst minimax.simps) (simp add: Let_def)

lemma minimax_lost:
  "checkWinner b = Some (otherMark maxP) \<Longrightarrow> minimax b d m maxP = Some (None, d - 10)"
  by (subst minimax.simps) (auto simp: Let_def otherMark_def)

lemma minimax_full:
  "checkWinner b = None \<Longrightarrow> isBoardFull b \<Longrightarrow> minimax b d m maxP = Some (None, 0)"
  by (subst minimax.simps) (simp add: Let_def)

lemma minimax_open:
  assumes "checkWinner b = None" and "\<not> isBoardFull b"
  shows "minimax b d m maxP =
     (case pushMoves
             (map (\<lambda>index. (index,
                     minimax (b[index := Some (if m then maxP else otherMark maxP)])
                       (d + 1) (\<not> m) maxP))
                (getEmptyIndices b)) of
        None \<Rightarrow> None
      | Some moves \<Rightarrow>
          (case (if m then bestMax moves 0 None None else bestMin moves 0 None None) of
             None \<Rightarrow> None
           | Some bestMove \<Rightarrow> Some (moves ! bestMove)))"
  using assms by (subst minimax.simps) (simp add: Let_def otherMark_def)

lemma empties_update:
  assumes "i < length b" and "b ! i = None"
  shows "Suc (length (filter (\<lambda>cell. cell = None) (b[i := Some p])))
           = length (filter (\<lambda>cell. cell = None) b)"
proof -
  define before where "before = take i b"
  define after where "after = drop (Suc i) b"
  have "b = before @ b ! i # after"
    unfolding before_def after_def using assms(1) by (rule id_take_nth_drop)
  then have old: "b = before @ None # after"
    by (simp only: assms(2))
  have new: "b[i := Some p] = before @ Some p # after"
    unfolding before_def after_def using assms(1) by (rule upd_conv_take_nth_drop)
  have "Suc (length (filter (\<lambda>cell. cell = None) (before @ Some p # after)))
      = length (filter (\<lambda>cell. cell = None) (before @ None # after))"
    by simp
  then show ?thesis using old new by simp
qed

lemma minimax_total: "minimax b d m maxP \<noteq> None"
proof (induction b d m maxP rule: minimax.induct)
  case (1 board depth isMaximizing maxPlayer)
  show ?case
  proof (cases "checkWinner board")
    case (Some w)
    then show ?thesis
      by (cases w; cases maxPlayer) (simp_all add: minimax_won minimax_lost otherMark_def)
  next
    case None
    show ?thesis
    proof (cases "isBoardFull board")
      case True
      with None show ?thesis by (simp add: minimax_full)
    next
      case False
      let ?f = "\<lambda>index. minimax (board[index := Some (if isMaximizing then maxPlayer else otherMark maxPlayer)])
          (depth + 1) (\<not> isMaximizing) maxPlayer"
      have "\<forall>i \<in> set (getEmptyIndices board). ?f i \<noteq> None"
        using "1.IH" [OF refl refl] None False by (auto simp: otherMark_def)
      then have pm: "pushMoves (map (\<lambda>index. (index, ?f index)) (getEmptyIndices board))
          = Some (map (\<lambda>i. (Some i, snd (the (?f i)))) (getEmptyIndices board))"
        by (rule pushMoves_map)
      have ne: "map (\<lambda>i. (Some i, snd (the (?f i)))) (getEmptyIndices board) \<noteq> []"
        using False by (simp add: isBoardFull_iff)
      obtain k where "(if isMaximizing
             then bestMax (map (\<lambda>i. (Some i, snd (the (?f i)))) (getEmptyIndices board)) 0 None None
             else bestMin (map (\<lambda>i. (Some i, snd (the (?f i)))) (getEmptyIndices board)) 0 None None)
          = Some k"
        using bestMax_first_maximum [OF ne] bestMin_first_minimum [OF ne]
        by (cases isMaximizing) auto
      then show ?thesis
        unfolding minimax_open [OF None False] pm by simp
    qed
  qed
qed

lemma minimax_open_max:
  fixes b :: board and d :: int and maxP :: mark
  assumes "checkWinner b = None" and "\<not> isBoardFull b"
  defines "es \<equiv> getEmptyIndices b"
  defines "sc \<equiv> \<lambda>i. snd (the (minimax (b[i := Some maxP]) (d + 1) False maxP))"
  shows "\<exists>k < length es. minimax b d True maxP = Some (Some (es ! k), sc (es ! k)) \<and>
           (\<forall>j < length es. sc (es ! j) \<le> sc (es ! k)) \<and>
           (\<forall>j < k. sc (es ! j) < sc (es ! k))"
proof -
  let ?f = "\<lambda>index. minimax (b[index := Some (if True then maxP else otherMark maxP)]) (d + 1) (\<not> True) maxP"
  let ?moves = "map (\<lambda>i. (Some i, snd (the (?f i)))) es"
  have pm: "pushMoves (map (\<lambda>index. (index, ?f index)) (getEmptyIndices b)) = Some ?moves"
    unfolding es_def by (rule pushMoves_map) (simp add: minimax_total)
  have ne: "?moves \<noteq> []" using assms(2) by (simp add: isBoardFull_iff es_def)
  from bestMax_first_maximum [OF ne] obtain k where k: "k < length ?moves"
    "bestMax ?moves 0 None None = Some k"
    "\<forall>j < length ?moves. snd (?moves ! j) \<le> snd (?moves ! k)"
    "\<forall>j < k. snd (?moves ! j) < snd (?moves ! k)" by blast
  have kl: "k < length es" using k(1) by simp
  have "minimax b d True maxP = Some (?moves ! k)"
    unfolding minimax_open [OF assms(1,2)] pm using k(2) by simp
  then have "minimax b d True maxP = Some (Some (es ! k), sc (es ! k))"
    using kl by (simp add: sc_def)
  moreover have "\<forall>j < length es. sc (es ! j) \<le> sc (es ! k)"
    using k(3) kl by (simp add: sc_def)
  moreover have "\<forall>j < k. sc (es ! j) < sc (es ! k)"
    using k(4) kl by (simp add: sc_def)
  ultimately show ?thesis using kl by blast
qed

lemma minimax_open_min:
  fixes b :: board and d :: int and maxP :: mark
  assumes "checkWinner b = None" and "\<not> isBoardFull b"
  defines "es \<equiv> getEmptyIndices b"
  defines "sc \<equiv> \<lambda>i. snd (the (minimax (b[i := Some (otherMark maxP)]) (d + 1) True maxP))"
  shows "\<exists>k < length es. minimax b d False maxP = Some (Some (es ! k), sc (es ! k)) \<and>
           (\<forall>j < length es. sc (es ! k) \<le> sc (es ! j)) \<and>
           (\<forall>j < k. sc (es ! k) < sc (es ! j))"
proof -
  let ?f = "\<lambda>index. minimax (b[index := Some (if False then maxP else otherMark maxP)]) (d + 1) (\<not> False) maxP"
  let ?moves = "map (\<lambda>i. (Some i, snd (the (?f i)))) es"
  have pm: "pushMoves (map (\<lambda>index. (index, ?f index)) (getEmptyIndices b)) = Some ?moves"
    unfolding es_def by (rule pushMoves_map) (simp add: minimax_total)
  have ne: "?moves \<noteq> []" using assms(2) by (simp add: isBoardFull_iff es_def)
  from bestMin_first_minimum [OF ne] obtain k where k: "k < length ?moves"
    "bestMin ?moves 0 None None = Some k"
    "\<forall>j < length ?moves. snd (?moves ! k) \<le> snd (?moves ! j)"
    "\<forall>j < k. snd (?moves ! k) < snd (?moves ! j)" by blast
  have kl: "k < length es" using k(1) by simp
  have "minimax b d False maxP = Some (?moves ! k)"
    unfolding minimax_open [OF assms(1,2)] pm using k(2) by simp
  then have "minimax b d False maxP = Some (Some (es ! k), sc (es ! k))"
    using kl by (simp add: sc_def)
  moreover have "\<forall>j < length es. sc (es ! k) \<le> sc (es ! j)"
    using k(3) kl by (simp add: sc_def)
  moreover have "\<forall>j < k. sc (es ! k) < sc (es ! j)"
    using k(4) kl by (simp add: sc_def)
  ultimately show ?thesis using kl by blast
qed

subsection \<open>The sign of the score\<close>

lemma canHold_open_computer:
  assumes "checkWinner b = None" and "\<not> isBoardFull b"
  shows "canHold True b \<longleftrightarrow> (\<exists>i \<in> set (getEmptyIndices b). canHold False (b[i := Some MarkO]))"
  using assms by (subst canHold.simps) auto

lemma canHold_open_opponent:
  assumes "checkWinner b = None" and "\<not> isBoardFull b"
  shows "canHold False b \<longleftrightarrow> (\<forall>i \<in> set (getEmptyIndices b). canHold True (b[i := Some MarkX]))"
  using assms by (subst canHold.simps) auto

lemma canHold_not_lost: "canHold m b \<Longrightarrow> checkWinner b \<noteq> Some MarkX"
  by (erule canHold.cases) auto

lemma canHold_iff_score:
  assumes "maxP = MarkO" and "d + int (length (filter (\<lambda>cell. cell = None) b)) \<le> 9"
  shows "canHold m b \<longleftrightarrow> 0 \<le> snd (the (minimax b d m maxP))"
  using assms
proof (induction b d m maxP rule: minimax.induct)
  case (1 board depth isMaximizing maxPlayer)
  note maxP = \<open>maxPlayer = MarkO\<close>
  note bound = \<open>depth + int (length (filter (\<lambda>cell. cell = None) board)) \<le> 9\<close>
  have depth: "depth \<le> 9" using bound by linarith
  show ?case
  proof (cases "checkWinner board")
    case (Some w)
    show ?thesis
    proof (cases w)
      case MarkO
      with Some have "canHold isMaximizing board" by (simp add: canHold.won)
      moreover have "minimax board depth isMaximizing maxPlayer = Some (None, 10 - depth)"
        using Some MarkO maxP by (simp add: minimax_won)
      ultimately show ?thesis using depth by simp
    next
      case MarkX
      with Some have "\<not> canHold isMaximizing board" using canHold_not_lost by blast
      moreover have "minimax board depth isMaximizing maxPlayer = Some (None, depth - 10)"
        using Some MarkX maxP by (simp add: minimax_lost otherMark_def)
      ultimately show ?thesis using depth by simp
    qed
  next
    case None
    show ?thesis
    proof (cases "isBoardFull board")
      case True
      with None have "canHold isMaximizing board" by (simp add: canHold.drawn)
      moreover have "minimax board depth isMaximizing maxPlayer = Some (None, 0)"
        using None True by (simp add: minimax_full)
      ultimately show ?thesis by simp
    next
      case False
      let ?es = "getEmptyIndices board"
      have child_bound: "depth + 1 + int (length (filter (\<lambda>cell. cell = None) (board[i := Some p]))) \<le> 9"
        if "i \<in> set ?es" for i p
      proof -
        from that have "i < length board" "board ! i = None" by (simp_all add: set_getEmptyIndices)
        from empties_update [OF this, of p] bound show ?thesis by linarith
      qed
      have IH: "canHold (\<not> isMaximizing) (board[i := Some (if isMaximizing then MarkO else MarkX)])
          \<longleftrightarrow> 0 \<le> snd (the (minimax (board[i := Some (if isMaximizing then MarkO else MarkX)])
                (depth + 1) (\<not> isMaximizing) MarkO))"
        if "i \<in> set ?es" for i
        using "1.IH" [OF refl refl _ _ False that maxP] None child_bound [OF that]
        unfolding maxP by (cases isMaximizing) simp_all
      show ?thesis
      proof (cases isMaximizing)
        case True
        from minimax_open_max [OF None False, where d = depth and maxP = MarkO] obtain k where k: "k < length ?es"
          "minimax board depth True MarkO = Some (Some (?es ! k),
             snd (the (minimax (board[?es ! k := Some MarkO]) (depth + 1) False MarkO)))"
          "\<forall>j < length ?es. snd (the (minimax (board[?es ! j := Some MarkO]) (depth + 1) False MarkO))
             \<le> snd (the (minimax (board[?es ! k := Some MarkO]) (depth + 1) False MarkO))"
          by blast
        have "canHold True board \<longleftrightarrow> (\<exists>i \<in> set ?es. canHold False (board[i := Some MarkO]))"
          using None False by (rule canHold_open_computer)
        also have "\<dots> \<longleftrightarrow> (\<exists>i \<in> set ?es. 0 \<le> snd (the (minimax (board[i := Some MarkO]) (depth + 1) False MarkO)))"
          using IH True by simp
        also have "\<dots> \<longleftrightarrow> 0 \<le> snd (the (minimax (board[?es ! k := Some MarkO]) (depth + 1) False MarkO))"
        proof
          assume "\<exists>i \<in> set ?es. 0 \<le> snd (the (minimax (board[i := Some MarkO]) (depth + 1) False MarkO))"
          then obtain j where "j < length ?es"
            "0 \<le> snd (the (minimax (board[?es ! j := Some MarkO]) (depth + 1) False MarkO))"
            by (auto simp: in_set_conv_nth)
          with k(3) show "0 \<le> snd (the (minimax (board[?es ! k := Some MarkO]) (depth + 1) False MarkO))"
            by force
        next
          assume "0 \<le> snd (the (minimax (board[?es ! k := Some MarkO]) (depth + 1) False MarkO))"
          with k(1) show "\<exists>i \<in> set ?es. 0 \<le> snd (the (minimax (board[i := Some MarkO]) (depth + 1) False MarkO))"
            using nth_mem by blast
        qed
        finally show ?thesis using k(2) True maxP by simp
      next
        case False2: False
        from minimax_open_min [OF None False, where d = depth and maxP = MarkO] obtain k where k: "k < length ?es"
          "minimax board depth False MarkO = Some (Some (?es ! k),
             snd (the (minimax (board[?es ! k := Some MarkX]) (depth + 1) True MarkO)))"
          "\<forall>j < length ?es. snd (the (minimax (board[?es ! k := Some MarkX]) (depth + 1) True MarkO))
             \<le> snd (the (minimax (board[?es ! j := Some MarkX]) (depth + 1) True MarkO))"
          by (auto simp: otherMark_def)
        have "canHold False board \<longleftrightarrow> (\<forall>i \<in> set ?es. canHold True (board[i := Some MarkX]))"
          using None False by (rule canHold_open_opponent)
        also have "\<dots> \<longleftrightarrow> (\<forall>i \<in> set ?es. 0 \<le> snd (the (minimax (board[i := Some MarkX]) (depth + 1) True MarkO)))"
          using IH False2 by simp
        also have "\<dots> \<longleftrightarrow> 0 \<le> snd (the (minimax (board[?es ! k := Some MarkX]) (depth + 1) True MarkO))"
        proof
          assume "\<forall>i \<in> set ?es. 0 \<le> snd (the (minimax (board[i := Some MarkX]) (depth + 1) True MarkO))"
          with k(1) show "0 \<le> snd (the (minimax (board[?es ! k := Some MarkX]) (depth + 1) True MarkO))"
            using nth_mem by blast
        next
          assume a: "0 \<le> snd (the (minimax (board[?es ! k := Some MarkX]) (depth + 1) True MarkO))"
          show "\<forall>i \<in> set ?es. 0 \<le> snd (the (minimax (board[i := Some MarkX]) (depth + 1) True MarkO))"
          proof
            fix i assume "i \<in> set ?es"
            then obtain j where "j < length ?es" "i = ?es ! j" by (auto simp: in_set_conv_nth)
            with k(3) a show "0 \<le> snd (the (minimax (board[i := Some MarkX]) (depth + 1) True MarkO))"
              by force
          qed
        qed
        finally show ?thesis using k(2) False2 maxP by simp
      qed
    qed
  qed
qed

lemma follows_sound:
  "follows t b \<Longrightarrow> canHold True b"
  "followsAll ts cells b \<Longrightarrow> \<forall>i \<in> set cells. canHold True (b[i := Some MarkX])"
proof (induction t b and ts cells b rule: follows_followsAll.induct)
  case (1 i rest b)
  show ?case
  proof (cases "checkWinner b = Some MarkO")
    case True
    then show ?thesis by (rule canHold.won)
  next
    case notwon: False
    with "1.prems" have none: "checkWinner b = None" by (simp split: if_splits)
    show ?thesis
    proof (cases "isBoardFull b")
      case True
      with none show ?thesis by (rule canHold.drawn)
    next
      case notfull: False
      with "1.prems" notwon none have cell: "i < length b" "b ! i = None"
        by (simp_all split: if_splits)
      then have mem: "i \<in> set (getEmptyIndices b)" by (simp add: set_getEmptyIndices)
      have "canHold False (b[i := Some MarkO])"
      proof (cases "checkWinner (b[i := Some MarkO]) = Some MarkO")
        case True
        then show ?thesis by (rule canHold.won)
      next
        case notwon': False
        with "1.prems" notwon none notfull cell have none': "checkWinner (b[i := Some MarkO]) = None"
          by (simp split: if_splits)
        show ?thesis
        proof (cases "isBoardFull (b[i := Some MarkO])")
          case True
          with none' show ?thesis by (rule canHold.drawn)
        next
          case notfull': False
          from "1.prems" notwon none notfull cell notwon' none' notfull'
          have "followsAll rest (getEmptyIndices (b[i := Some MarkO])) (b[i := Some MarkO])"
            by simp
          with "1.IH" notwon none notfull cell notwon' none' notfull'
          have "\<forall>j \<in> set (getEmptyIndices (b[i := Some MarkO])).
              canHold True (b[i := Some MarkO, j := Some MarkX])"
            by simp
          with none' notfull' show ?thesis by (rule canHold.opponent)
        qed
      qed
      with none notfull mem show ?thesis by (rule canHold.computer)
    qed
  qed
next
  case (2 b)
  show ?case by simp
next
  case (3 t ts i cells b)
  then show ?case by (simp split: if_splits)
next
  case (4 i cells b)
  then show ?case by simp
next
  case (5 t ts b)
  then show ?case by simp
qed

lemma canHold_start_opponent: "canHold False (replicate 9 None)"
proof -
  have "followsAll answersToOpenings (getEmptyIndices (replicate 9 None)) (replicate 9 None)"
    by code_simp
  then have "\<forall>i \<in> set (getEmptyIndices (replicate 9 None)).
      canHold True ((replicate 9 None)[i := Some MarkX])"
    by (rule follows_sound(2))
  moreover have "checkWinner (replicate 9 None) = None" by code_simp
  moreover have "\<not> isBoardFull (replicate 9 None)" by code_simp
  ultimately show ?thesis by (intro canHold.opponent)
qed

lemma canHold_start_computer: "canHold True (replicate 9 None)"
proof -
  have "follows computerOpening (replicate 9 None)" by code_simp
  then show ?thesis by (rule follows_sound(1))
qed

subsection \<open>Games against the hard difficulty\<close>

lemma nth_update_other_mark:
  assumes "(b[i := Some m]) ! a = Some m'" and "m \<noteq> m'"
  shows "b ! a = Some m'"
proof (cases "a = i \<and> i < length b")
  case True
  with assms show ?thesis by simp
next
  case False
  then have "(b[i := Some m]) ! a = b ! a"
    by (cases "i < length b") (auto simp: list_update_beyond)
  with assms(1) show ?thesis by simp
qed

lemma determineWinner_update_other_mark:
  assumes "determineWinner (b[i := Some m]) m'" and "m \<noteq> m'"
  shows "determineWinner b m'"
proof -
  from assms(1) obtain l where l: "l \<in> set winningCombinations" "lineFull (b[i := Some m]) m' l"
    unfolding determineWinner_iff by blast
  obtain x y z where xyz: "l = (x, y, z)" by (cases l) auto
  from l(2) have "lineFull b m' l"
    unfolding xyz lineFull_def using nth_update_other_mark [OF _ assms(2)] by auto
  with l(1) show ?thesis unfolding determineWinner_iff by blast
qed

lemma no_line_after_opponent_move:
  assumes "checkWinner b = None" and "checkWinner (b[i := Some m]) \<noteq> Some m"
  shows "checkWinner (b[i := Some m]) = None"
proof -
  have no: "\<not> determineWinner b (otherMark m)"
    using assms(1) by (cases m) (simp_all add: checkWinner_None_iff otherMark_def)
  have other: "\<not> determineWinner (b[i := Some m]) (otherMark m)"
    using determineWinner_update_other_mark [of b i m "otherMark m"] no
    by (cases m) (auto simp: otherMark_def)
  have "\<not> determineWinner (b[i := Some m]) m"
    using checkWinner_only_mark [OF _ other] assms(2) by blast
  with other show ?thesis
    by (cases m) (simp_all add: checkWinner_None_iff otherMark_def)
qed

lemma empties_le_length: "length (filter (\<lambda>cell. cell = None) (b :: board)) \<le> length b"
  by (rule length_filter_le)

lemma chooseMove_hard:
  "chooseMove Hard b rnd = (case minimax b 0 True MarkO of None \<Rightarrow> None | Some result \<Rightarrow> fst result)"
  by (simp add: chooseMove_def)

lemma computer_reply:
  assumes "length b = 9" and "checkWinner b = None" and "\<not> isBoardFull b" and "canHold True b"
  shows "\<exists>i. chooseMove Hard b rnd = Some i \<and> i < length b \<and> b ! i = None
           \<and> canHold False (b[i := Some MarkO])"
proof -
  let ?es = "getEmptyIndices b"
  from minimax_open_max [OF assms(2,3), where d = 0 and maxP = MarkO] obtain k where k: "k < length ?es"
    "minimax b 0 True MarkO = Some (Some (?es ! k),
       snd (the (minimax (b[?es ! k := Some MarkO]) (0 + 1) False MarkO)))"
    by blast
  define i where "i = ?es ! k"
  have mem: "i \<in> set ?es" unfolding i_def using k(1) by (rule nth_mem)
  then have cell: "i < length b" "b ! i = None" by (simp_all add: set_getEmptyIndices)
  have n: "int (length (filter (\<lambda>cell. cell = None) b)) \<le> 9"
    using empties_le_length [of b] assms(1) by simp
  then have "0 + int (length (filter (\<lambda>cell. cell = None) b)) \<le> 9" by simp
  from canHold_iff_score [OF refl this, of True] assms(4)
  have "0 \<le> snd (the (minimax b 0 True MarkO))" by simp
  then have score: "0 \<le> snd (the (minimax (b[i := Some MarkO]) (0 + 1) False MarkO))"
    unfolding k(2) i_def by simp
  have "0 + 1 + int (length (filter (\<lambda>cell. cell = None) (b[i := Some MarkO]))) \<le> 9"
    using empties_update [OF cell, of MarkO] n by linarith
  from canHold_iff_score [OF refl this, of False] score
  have "canHold False (b[i := Some MarkO])" by simp
  moreover have "chooseMove Hard b rnd = Some i"
    unfolding chooseMove_hard k(2) i_def by simp
  ultimately show ?thesis using cell by blast
qed

lemma handleComputerMove_timeout_fields:
  "gameMode (handleComputerMove_timeout s) = gameMode s"
  "onlineMode (handleComputerMove_timeout s) = onlineMode s"
  "difficulty (handleComputerMove_timeout s) = difficulty s"
  "currentGameBoard (handleComputerMove_timeout s) = currentGameBoard s"
  "isGameCurrentlyActive (handleComputerMove_timeout s) =
     (isGameCurrentlyActive s \<and> \<not> determineWinner (currentGameBoard s) MarkO
        \<and> \<not> isGameOver (currentGameBoard s))"
  "\<not> determineWinner (currentGameBoard s) MarkO \<Longrightarrow> \<not> isGameOver (currentGameBoard s) \<Longrightarrow>
     \<not> isProcessingMove (handleComputerMove_timeout s) \<and> clicksEnabled (handleComputerMove_timeout s)"
  by (simp_all add: handleComputerMove_timeout_def)

lemma computer_turn:
  assumes "gameMode s = Pvc" and "\<not> onlineMode s" and "difficulty s = Hard"
    and "length (currentGameBoard s) = 9" and "isGameCurrentlyActive s"
    and "checkWinner (currentGameBoard s) = None" and "\<not> isBoardFull (currentGameBoard s)"
    and "canHold True (currentGameBoard s)"
  shows "hardInvariant (handleComputerMove_run rnd s)"
proof -
  let ?b = "currentGameBoard s"
  from computer_reply [OF assms(4,6,7,8), of rnd] obtain i where i:
    "chooseMove Hard ?b rnd = Some i" "i < length ?b" "?b ! i = None"
    "canHold False (?b[i := Some MarkO])" by blast
  define s1 where "s1 = s\<lparr>currentGameBoard := ?b[i := Some MarkO]\<rparr>"
  have ne: "getEmptyIndices ?b \<noteq> []" using assms(7) by (simp add: isBoardFull_iff)
  have "handleComputerMove rnd s = Some s1"
    unfolding handleComputerMove_def s1_def using assms(2,3,5) ne i(1) by simp
  then have run: "handleComputerMove_run rnd s = handleComputerMove_timeout s1"
    by (simp add: handleComputerMove_run_def)
  have s1: "gameMode s1 = Pvc" "\<not> onlineMode s1" "difficulty s1 = Hard"
    "currentGameBoard s1 = ?b[i := Some MarkO]" "isGameCurrentlyActive s1"
    using assms(1,2,3,5) by (simp_all add: s1_def)
  have nox: "\<not> determineWinner (?b[i := Some MarkO]) MarkX"
    using determineWinner_update_other_mark [of ?b i MarkO MarkX] assms(6)
    by (auto simp: checkWinner_None_iff)
  have len: "length (?b[i := Some MarkO]) = 9" using assms(4) by simp
  show ?thesis
  proof (cases "determineWinner (?b[i := Some MarkO]) MarkO")
    case True
    then show ?thesis
      unfolding run hardInvariant_def using nox len
      by (simp add: handleComputerMove_timeout_fields(1-5) s1)
  next
    case noo: False
    with nox have none: "checkWinner (?b[i := Some MarkO]) = None"
      by (simp add: checkWinner_None_iff)
    show ?thesis
    proof (cases "isGameOver (?b[i := Some MarkO])")
      case True
      then show ?thesis
        unfolding run hardInvariant_def using nox len none
        by (simp add: handleComputerMove_timeout_fields(1-5) s1)
    next
      case False
      then have nf: "\<not> isBoardFull (?b[i := Some MarkO])"
        by (simp add: isGameOver_def isBoardFull_def)
      have "\<not> isProcessingMove (handleComputerMove_timeout s1) \<and> clicksEnabled (handleComputerMove_timeout s1)"
        using noo False by (intro handleComputerMove_timeout_fields(6)) (simp_all add: s1)
      then show ?thesis
        unfolding run hardInvariant_def using nox len none noo False nf i(4)
        by (simp add: handleComputerMove_timeout_fields(1-5) s1)
    qed
  qed
qed

lemma hardInvariant_start:
  assumes "gameMode s = Pvc" and "\<not> onlineMode s" and "difficulty s = Hard"
  shows "hardInvariant (creategameBoard_run rnd s)"
proof -
  define s1 where "s1 = creategameBoard s"
  have s1: "gameMode s1 = Pvc" "\<not> onlineMode s1" "difficulty s1 = Hard"
    "currentGameBoard s1 = replicate 9 None" "isGameCurrentlyActive s1" "\<not> isProcessingMove s1"
    "clicksEnabled s1 = (\<not> computerStartsFirst s)" "computerOpens s1 = computerStartsFirst s"
    using assms by (simp_all add: s1_def creategameBoard_def computerOpens_def)
  have none: "checkWinner (replicate 9 None) = None" by code_simp
  have nf: "\<not> isBoardFull (replicate 9 None)" by code_simp
  have nox: "\<not> determineWinner (replicate 9 None) MarkX"
    using none by (simp add: checkWinner_None_iff)
  show ?thesis
  proof (cases "computerStartsFirst s")
    case True
    have "hardInvariant (handleComputerMove_run rnd s1)"
      using s1(1,2,3) by (rule computer_turn) (simp_all add: s1 none nf canHold_start_computer)
    then show ?thesis
      using True s1(8) by (simp add: creategameBoard_run_def s1_def [symmetric] Let_def)
  next
    case False
    have "hardInvariant s1"
      unfolding hardInvariant_def using False none nf nox canHold_start_opponent
      by (simp add: s1)
    then show ?thesis
      using False s1(8) by (simp add: creategameBoard_run_def s1_def [symmetric] Let_def)
  qed
qed

lemma hardInvariant_click:
  assumes "hardInvariant s"
  shows "hardInvariant (cellClick rnd s i)"
proof (cases "i < 9 \<and> clicksEnabled s \<and> isGameCurrentlyActive s \<and> currentGameBoard s ! i = None
    \<and> \<not> isProcessingMove s")
  case False
  then have "cellClick rnd s i = s"
    by (auto simp: cellClick_def handlePlayerMove_run_def handlePlayerMove_def)
  with assms show ?thesis by simp
next
  case True
  let ?b = "currentGameBoard s"
  from assms True have inv: "gameMode s = Pvc" "\<not> onlineMode s" "difficulty s = Hard"
    "length ?b = 9" "checkWinner ?b = None" "\<not> isBoardFull ?b" "canHold False ?b"
    by (simp_all add: hardInvariant_def)
  define s1 where "s1 = s\<lparr>isProcessingMove := True, clicksEnabled := False,
      currentGameBoard := ?b[i := Some MarkX]\<rparr>"
  have hp: "handlePlayerMove s i = (s1, Some MarkX)"
    unfolding handlePlayerMove_def s1_def using True inv(1,2) by (simp add: Let_def)
  have s1: "gameMode s1 = Pvc" "\<not> onlineMode s1" "difficulty s1 = Hard"
    "currentGameBoard s1 = ?b[i := Some MarkX]" "isGameCurrentlyActive s1"
    using inv(1,2,3) True by (simp_all add: s1_def)
  have mem: "i \<in> set (getEmptyIndices ?b)"
    using True inv(4) by (simp add: set_getEmptyIndices)
  have hold: "canHold True (?b[i := Some MarkX])"
    using inv(7) mem unfolding canHold_open_opponent [OF inv(5,6)] by blast
  have none: "checkWinner (?b[i := Some MarkX]) = None"
    using inv(5) canHold_not_lost [OF hold] by (rule no_line_after_opponent_move)
  then have nox: "\<not> determineWinner (?b[i := Some MarkX]) MarkX"
    by (simp add: checkWinner_None_iff)
  have len: "length (?b[i := Some MarkX]) = 9" using inv(4) by simp
  show ?thesis
  proof (cases "isGameOver (?b[i := Some MarkX])")
    case over: True
    define s2 where "s2 = s1\<lparr>statistics := (statistics s1)\<lparr>localDraws := localDraws (statistics s1) + 1,
        localTotalGames := localTotalGames (statistics s1) + 1\<rparr>, isGameCurrentlyActive := False\<rparr>"
    have "handlePlayerMove_timeout MarkX s1 = (s2, False)"
      unfolding handlePlayerMove_timeout_def s2_def using nox over by (simp add: s1)
    then have "cellClick rnd s i = s2"
      using True by (simp add: cellClick_def handlePlayerMove_run_def hp)
    moreover have "hardInvariant s2"
      unfolding hardInvariant_def using s1 nox len none over by (simp add: s2_def)
    ultimately show ?thesis by simp
  next
    case notover: False
    then have nf: "\<not> isBoardFull (?b[i := Some MarkX])"
      by (simp add: isGameOver_def isBoardFull_def)
    have "handlePlayerMove_timeout MarkX s1 = (s1, True)"
      unfolding handlePlayerMove_timeout_def using nox notover by (simp add: s1)
    then have "cellClick rnd s i = handleComputerMove_run rnd s1"
      using True by (simp add: cellClick_def handlePlayerMove_run_def hp)
    moreover have "hardInvariant (handleComputerMove_run rnd s1)"
      using s1(1,2,3) by (rule computer_turn) (simp_all add: s1 inv(4) none nf hold)
    ultimately show ?thesis by simp
  qed
qed

lemma hardPlay_invariant: "hardPlay s \<Longrightarrow> hardInvariant s"
  by (induction rule: hardPlay.induct) (simp_all add: hardInvariant_start hardInvariant_click)

lemma computer_turn_board:
  assumes "gameMode s = Pvc" and "\<not> onlineMode s" and "difficulty s = Hard"
    and "length (currentGameBoard s) = 9" and "isGameCurrentlyActive s"
    and "checkWinner (currentGameBoard s) = None" and "\<not> isBoardFull (currentGameBoard s)"
    and "canHold True (currentGameBoard s)"
  shows "\<exists>j < 9. currentGameBoard s ! j = None
           \<and> currentGameBoard (handleComputerMove_run rnd s) = (currentGameBoard s)[j := Some MarkO]"
proof -
  let ?b = "currentGameBoard s"
  from computer_reply [OF assms(4,6,7,8), of rnd] obtain j where j:
    "chooseMove Hard ?b rnd = Some j" "j < length ?b" "?b ! j = None" by blast
  have ne: "getEmptyIndices ?b \<noteq> []" using assms(7) by (simp add: isBoardFull_iff)
  have "handleComputerMove rnd s = Some (s\<lparr>currentGameBoard := ?b[j := Some MarkO]\<rparr>)"
    unfolding handleComputerMove_def using assms(2,3,5) ne j(1) by simp
  then have "handleComputerMove_run rnd s
      = handleComputerMove_timeout (s\<lparr>currentGameBoard := ?b[j := Some MarkO]\<rparr>)"
    by (simp add: handleComputerMove_run_def)
  then have "currentGameBoard (handleComputerMove_run rnd s) = ?b[j := Some MarkO]"
    by (simp add: handleComputerMove_timeout_fields(4))
  with j(2,3) assms(4) show ?thesis by auto
qed

lemma click_fills_cells:
  assumes "hardInvariant s" and "isGameCurrentlyActive s" and "i < 9"
    and "currentGameBoard s ! i = None"
  shows "length (filter (\<lambda>cell. cell = None) (currentGameBoard (cellClick rnd s i)))
           < length (filter (\<lambda>cell. cell = None) (currentGameBoard s))"
proof -
  let ?b = "currentGameBoard s"
  from assms(1,2) have inv: "gameMode s = Pvc" "\<not> onlineMode s" "difficulty s = Hard"
    "length ?b = 9" "checkWinner ?b = None" "\<not> isBoardFull ?b" "canHold False ?b"
    "\<not> isProcessingMove s" "clicksEnabled s"
    by (simp_all add: hardInvariant_def)
  define s1 where "s1 = s\<lparr>isProcessingMove := True, clicksEnabled := False,
      currentGameBoard := ?b[i := Some MarkX]\<rparr>"
  have hp: "handlePlayerMove s i = (s1, Some MarkX)"
    unfolding handlePlayerMove_def s1_def using assms(2,4) inv(1,2,8) by (simp add: Let_def)
  have s1: "gameMode s1 = Pvc" "\<not> onlineMode s1" "difficulty s1 = Hard"
    "currentGameBoard s1 = ?b[i := Some MarkX]" "isGameCurrentlyActive s1"
    using inv(1,2,3) assms(2) by (simp_all add: s1_def)
  have mem: "i \<in> set (getEmptyIndices ?b)"
    using assms(3,4) inv(4) by (simp add: set_getEmptyIndices)
  have hold: "canHold True (?b[i := Some MarkX])"
    using inv(7) mem unfolding canHold_open_opponent [OF inv(5,6)] by blast
  have none: "checkWinner (?b[i := Some MarkX]) = None"
    using inv(5) canHold_not_lost [OF hold] by (rule no_line_after_opponent_move)
  then have nox: "\<not> determineWinner (?b[i := Some MarkX]) MarkX"
    by (simp add: checkWinner_None_iff)
  have il: "i < length ?b" using assms(3) inv(4) by simp
  have first: "Suc (length (filter (\<lambda>cell. cell = None) (?b[i := Some MarkX])))
      = length (filter (\<lambda>cell. cell = None) ?b)"
    using il assms(4) by (rule empties_update)
  show ?thesis
  proof (cases "isGameOver (?b[i := Some MarkX])")
    case over: True
    define s2 where "s2 = s1\<lparr>statistics := (statistics s1)\<lparr>localDraws := localDraws (statistics s1) + 1,
        localTotalGames := localTotalGames (statistics s1) + 1\<rparr>, isGameCurrentlyActive := False\<rparr>"
    have "handlePlayerMove_timeout MarkX s1 = (s2, False)"
      unfolding handlePlayerMove_timeout_def s2_def using nox over by (simp add: s1)
    then have "cellClick rnd s i = s2"
      using assms(3) inv(9) by (simp add: cellClick_def handlePlayerMove_run_def hp)
    then have "currentGameBoard (cellClick rnd s i) = ?b[i := Some MarkX]"
      by (simp add: s2_def s1)
    with first show ?thesis by simp
  next
    case notover: False
    then have nf: "\<not> isBoardFull (?b[i := Some MarkX])"
      by (simp add: isGameOver_def isBoardFull_def)
    have "handlePlayerMove_timeout MarkX s1 = (s1, True)"
      unfolding handlePlayerMove_timeout_def using nox notover by (simp add: s1)
    then have run: "cellClick rnd s i = handleComputerMove_run rnd s1"
      using assms(3) inv(9) by (simp add: cellClick_def handlePlayerMove_run_def hp)
    have "\<exists>j < 9. currentGameBoard s1 ! j = None
        \<and> currentGameBoard (handleComputerMove_run rnd s1) = (currentGameBoard s1)[j := Some MarkO]"
      using s1(1,2,3) by (rule computer_turn_board) (simp_all add: s1 inv(4) none nf hold)
    then obtain j where j: "j < 9" "(?b[i := Some MarkX]) ! j = None"
      "currentGameBoard (cellClick rnd s i) = ?b[i := Some MarkX, j := Some MarkO]"
      unfolding run s1(4) by blast
    have "j < length (?b[i := Some MarkX])" using j(1) inv(4) by simp
    from empties_update [OF this j(2), of MarkO] first show ?thesis
      unfolding j(3) by simp
  qed
qed

text \<open>
  Claim C3. In a game against the hard difficulty that starts from the empty board, with
  either side opening and whatever cells the player clicks, X never owns a full line:
  \<^verbatim>\<open>determineWinner("X")\<close> is false and \<^verbatim>\<open>checkWinner\<close> never returns X. When the
  game has ended, O owns a full line or the board is full without a winner. While it has
  not ended, the board has an empty cell, the cells are clickable and no move is in
  progress, and a click on an empty cell leaves fewer empty cells than before: every game
  ends, in a win of the computer or a draw.
\<close>

theorem hard_difficulty_never_loses:
  assumes "hardPlay s"
  shows "\<not> determineWinner (currentGameBoard s) MarkX
       \<and> checkWinner (currentGameBoard s) \<noteq> Some MarkX
       \<and> (\<not> isGameCurrentlyActive s \<longrightarrow>
            determineWinner (currentGameBoard s) MarkO
            \<or> (isGameOver (currentGameBoard s) \<and> checkWinner (currentGameBoard s) = None))
       \<and> (isGameCurrentlyActive s \<longrightarrow>
            \<not> isGameOver (currentGameBoard s) \<and> clicksEnabled s \<and> \<not> isProcessingMove s)
       \<and> (isGameCurrentlyActive s \<and> i < 9 \<and> currentGameBoard s ! i = None \<longrightarrow>
            length (filter (\<lambda>cell. cell = None) (currentGameBoard (cellClick rnd s i)))
              < length (filter (\<lambda>cell. cell = None) (currentGameBoard s)))"
proof -
  from assms have inv: "hardInvariant s" by (rule hardPlay_invariant)
  then have nox: "\<not> determineWinner (currentGameBoard s) MarkX"
    by (simp add: hardInvariant_def)
  then have "checkWinner (currentGameBoard s) \<noteq> Some MarkX"
    using checkWinner_Some_line by blast
  moreover have "\<not> isGameCurrentlyActive s \<longrightarrow>
      determineWinner (currentGameBoard s) MarkO
      \<or> (isGameOver (currentGameBoard s) \<and> checkWinner (currentGameBoard s) = None)"
    using inv by (simp add: hardInvariant_def)
  moreover have "isGameCurrentlyActive s \<longrightarrow>
      \<not> isGameOver (currentGameBoard s) \<and> clicksEnabled s \<and> \<not> isProcessingMove s"
  proof
    assume "isGameCurrentlyActive s"
    with inv have "\<not> isBoardFull (currentGameBoard s)" "clicksEnabled s" "\<not> isProcessingMove s"
      by (simp_all add: hardInvariant_def)
    moreover have "isGameOver (currentGameBoard s) = isBoardFull (currentGameBoard s)"
      by (simp add: isGameOver_def isBoardFull_def)
    ultimately show "\<not> isGameOver (currentGameBoard s) \<and> clicksEnabled s \<and> \<not> isProcessingMove s"
      by simp
  qed
  moreover have "isGameCurrentlyActive s \<and> i < 9 \<and> currentGameBoard s ! i = None \<longrightarrow>
      length (filter (\<lambda>cell. cell = None) (currentGameBoard (cellClick rnd s i)))
        < length (filter (\<lambda>cell. cell = None) (currentGameBoard s))"
    using click_fills_cells [OF inv] by blast
  ultimately show ?thesis using nox by blast
qed

theorem hard_difficulty_never_loses_witness:
  "\<not> determineWinner
       (currentGameBoard
          (cellClick 0 (cellClick 0 (creategameBoard_run 0 (initialClient\<lparr>difficulty := Hard\<rparr>)) 4) 8))
       MarkX
   \<and> clicksEnabled (creategameBoard_run 0 (initialClient\<lparr>difficulty := Hard\<rparr>))
   \<and> length (filter (\<lambda>cell. cell = None)
        (currentGameBoard (cellClick 0 (creategameBoard_run 0 (initialClient\<lparr>difficulty := Hard\<rparr>)) 4)))
       < 9
   \<and> (determineWinner
         (currentGameBoard (creategameBoard_run 0
            (initialClient\<lparr>difficulty := Hard, isGameCurrentlyActive := False\<rparr>))) MarkO
       \<or> isGameCurrentlyActive (creategameBoard_run 0
            (initialClient\<lparr>difficulty := Hard, isGameCurrentlyActive := False\<rparr>)))"
proof -
  define s0 where "s0 = creategameBoard_run 0 (initialClient\<lparr>difficulty := Hard\<rparr>)"
  have start: "hardPlay s0"
    unfolding s0_def by (rule hardPlay.start) (simp_all add: initialClient_def)
  then have "hardPlay (cellClick 0 (cellClick 0 s0 4) 8)"
    by (intro hardPlay.click)
  from hard_difficulty_never_loses [OF this]
  have a: "\<not> determineWinner (currentGameBoard (cellClick 0 (cellClick 0 s0 4) 8)) MarkX"
    by blast
  have s0: "isGameCurrentlyActive s0" "currentGameBoard s0 = replicate 9 None"
    by (simp_all add: s0_def creategameBoard_run_def creategameBoard_def computerOpens_def
        initialClient_def Let_def)
  have cell: "currentGameBoard s0 ! 4 = None" "length (filter (\<lambda>cell. cell = None) (currentGameBoard s0)) = 9"
    by (simp_all add: s0(2))
  from hard_difficulty_never_loses [OF start, of 4 0] s0(1) cell
  have b: "clicksEnabled s0"
    "length (filter (\<lambda>cell. cell = None) (currentGameBoard (cellClick 0 s0 4))) < 9"
    by simp_all
  define s1 where "s1 = creategameBoard_run 0
      (initialClient\<lparr>difficulty := Hard, isGameCurrentlyActive := False\<rparr>)"
  have "hardPlay s1"
    unfolding s1_def by (rule hardPlay.start) (simp_all add: initialClient_def)
  from hard_difficulty_never_loses [OF this]
  have "\<not> isGameCurrentlyActive s1 \<longrightarrow> determineWinner (currentGameBoard s1) MarkO
      \<or> (isGameOver (currentGameBoard s1) \<and> checkWinner (currentGameBoard s1) = None)"
    by blast
  moreover have "isGameCurrentlyActive s1"
    by (simp add: s1_def creategameBoard_run_def creategameBoard_def computerOpens_def
        initialClient_def Let_def)
  ultimately have c: "determineWinner (currentGameBoard s1) MarkO \<or> isGameCurrentlyActive s1"
    by blast
  from a b c show ?thesis unfolding s0_def s1_def by blast
qed

subsection \<open>The result of the search at the root\<close>

lemma sorted_nth_less:
  assumes "sorted_wrt (<) (xs :: nat list)" and "p < length xs" and "k < length xs" and "xs ! p < xs ! k"
  shows "p < k"
proof (rule ccontr)
  assume "\<not> p < k"
  then have "k \<le> p" by simp
  then have "xs ! k \<le> xs ! p"
  proof (cases "k = p")
    case True then show ?thesis by simp
  next
    case False
    with \<open>k \<le> p\<close> have "k < p" by simp
    with assms(1,2) have "xs ! k < xs ! p" by (simp add: sorted_wrt_nth_less)
    then show ?thesis by simp
  qed
  with assms(4) show False by simp
qed

text \<open>
  Claim C4. On a board of nine cells and for either maximizing mark, the search scores a
  board that \<^verbatim>\<open>checkWinner\<close> gives to the maximizing mark \<open>10 - depth\<close>, one it gives to
  the other mark \<open>depth - 10\<close>, and a full board without winner \<open>0\<close>, at every depth and
  on either level. On a board without winner that has an empty cell the maximizing call
  returns an empty cell \<open>i\<close> together with the score \<open>s\<close> that the search (minimizing,
  one level deeper) gives the board with the maximizing mark on \<open>i\<close>; every empty cell's
  score is at most \<open>s\<close>, and every empty cell before \<open>i\<close> has a score below \<open>s\<close>: the
  first cell of maximal score wins. The minimizing call on such a board returns an empty
  cell \<open>i\<close> together with the score \<open>s\<close> that the search (maximizing, one level deeper)
  gives the board with the other mark on \<open>i\<close>; every empty cell's score is at least
  \<open>s\<close>, and every empty cell before \<open>i\<close> has a score above \<open>s\<close>. So the score of every
  subtree is the one the recursion computes, level by level, down to the decided boards.
\<close>

theorem minimax_scores_and_first_best_cell:
  assumes "length b = 9"
  shows "(checkWinner b = Some maxP \<longrightarrow> minimax b d m maxP = Some (None, 10 - d))
       \<and> (checkWinner b = Some (otherMark maxP) \<longrightarrow> minimax b d m maxP = Some (None, d - 10))
       \<and> (checkWinner b = None \<and> isBoardFull b \<longrightarrow> minimax b d m maxP = Some (None, 0))
       \<and> (checkWinner b = None \<and> \<not> isBoardFull b \<longrightarrow>
            (\<exists>i s. minimax b d True maxP = Some (Some i, s)
               \<and> i < 9 \<and> b ! i = None
               \<and> (\<exists>ix. minimax (b[i := Some maxP]) (d + 1) False maxP = Some (ix, s))
               \<and> (\<forall>j < 9. b ! j = None \<longrightarrow>
                    (\<exists>ix sj. minimax (b[j := Some maxP]) (d + 1) False maxP = Some (ix, sj)
                       \<and> sj \<le> s \<and> (j < i \<longrightarrow> sj < s)))))
       \<and> (checkWinner b = None \<and> \<not> isBoardFull b \<longrightarrow>
            (\<exists>i s. minimax b d False maxP = Some (Some i, s)
               \<and> i < 9 \<and> b ! i = None
               \<and> (\<exists>ix. minimax (b[i := Some (otherMark maxP)]) (d + 1) True maxP = Some (ix, s))
               \<and> (\<forall>j < 9. b ! j = None \<longrightarrow>
                    (\<exists>ix sj. minimax (b[j := Some (otherMark maxP)]) (d + 1) True maxP = Some (ix, sj)
                       \<and> s \<le> sj \<and> (j < i \<longrightarrow> s < sj)))))"
proof (intro conjI impI)
  assume "checkWinner b = Some maxP"
  then show "minimax b d m maxP = Some (None, 10 - d)" by (rule minimax_won)
next
  assume "checkWinner b = Some (otherMark maxP)"
  then show "minimax b d m maxP = Some (None, d - 10)" by (rule minimax_lost)
next
  assume "checkWinner b = None \<and> isBoardFull b"
  then show "minimax b d m maxP = Some (None, 0)" by (simp add: minimax_full)
next
  assume a: "checkWinner b = None \<and> \<not> isBoardFull b"
  let ?es = "getEmptyIndices b"
  let ?sc = "\<lambda>j. snd (the (minimax (b[j := Some maxP]) (d + 1) False maxP))"
  have child: "\<exists>ix. minimax (b[j := Some maxP]) (d + 1) False maxP = Some (ix, ?sc j)" for j
    using minimax_total [of "b[j := Some maxP]" "d + 1" False maxP]
    by (cases "minimax (b[j := Some maxP]) (d + 1) False maxP") auto
  from a have nw: "checkWinner b = None" and nf: "\<not> isBoardFull b" by simp_all
  from minimax_open_max [OF nw nf, where d = d and maxP = maxP] obtain k where k: "k < length ?es"
    "minimax b d True maxP = Some (Some (?es ! k), ?sc (?es ! k))"
    "\<forall>j < length ?es. ?sc (?es ! j) \<le> ?sc (?es ! k)"
    "\<forall>j < k. ?sc (?es ! j) < ?sc (?es ! k)" by blast
  define i where "i = ?es ! k"
  have "i \<in> set ?es" unfolding i_def using k(1) by (rule nth_mem)
  then have cell: "i < 9" "b ! i = None" using assms by (simp_all add: set_getEmptyIndices)
  have others: "\<exists>ix sj. minimax (b[j := Some maxP]) (d + 1) False maxP = Some (ix, sj)
      \<and> sj \<le> ?sc i \<and> (j < i \<longrightarrow> sj < ?sc i)" if "j < 9" "b ! j = None" for j
  proof -
    from that assms have "j \<in> set ?es" by (simp add: set_getEmptyIndices)
    then obtain p where p: "p < length ?es" "j = ?es ! p" by (auto simp: in_set_conv_nth)
    have le: "?sc j \<le> ?sc i" using k(3) p by (simp add: i_def)
    have "?sc j < ?sc i" if "j < i"
    proof -
      from that have "?es ! p < ?es ! k" by (simp add: p(2) i_def)
      with getEmptyIndices_sorted p(1) k(1) have "p < k" by (rule sorted_nth_less)
      with k(4) show ?thesis by (simp add: p(2) i_def)
    qed
    with le child [of j] show ?thesis by blast
  qed
  show "\<exists>i s. minimax b d True maxP = Some (Some i, s)
      \<and> i < 9 \<and> b ! i = None
      \<and> (\<exists>ix. minimax (b[i := Some maxP]) (d + 1) False maxP = Some (ix, s))
      \<and> (\<forall>j < 9. b ! j = None \<longrightarrow>
           (\<exists>ix sj. minimax (b[j := Some maxP]) (d + 1) False maxP = Some (ix, sj)
              \<and> sj \<le> s \<and> (j < i \<longrightarrow> sj < s)))"
    using k(2) cell child [of i] others unfolding i_def [symmetric]
    by (intro exI[of _ i] exI[of _ "?sc i"]) blast
next
  assume a: "checkWinner b = None \<and> \<not> isBoardFull b"
  let ?es = "getEmptyIndices b"
  let ?sc = "\<lambda>j. snd (the (minimax (b[j := Some (otherMark maxP)]) (d + 1) True maxP))"
  have child: "\<exists>ix. minimax (b[j := Some (otherMark maxP)]) (d + 1) True maxP = Some (ix, ?sc j)" for j
    using minimax_total [of "b[j := Some (otherMark maxP)]" "d + 1" True maxP]
    by (cases "minimax (b[j := Some (otherMark maxP)]) (d + 1) True maxP") auto
  from a have nw: "checkWinner b = None" and nf: "\<not> isBoardFull b" by simp_all
  from minimax_open_min [OF nw nf, where d = d and maxP = maxP] obtain k where k: "k < length ?es"
    "minimax b d False maxP = Some (Some (?es ! k), ?sc (?es ! k))"
    "\<forall>j < length ?es. ?sc (?es ! k) \<le> ?sc (?es ! j)"
    "\<forall>j < k. ?sc (?es ! k) < ?sc (?es ! j)" by blast
  define i where "i = ?es ! k"
  have "i \<in> set ?es" unfolding i_def using k(1) by (rule nth_mem)
  then have cell: "i < 9" "b ! i = None" using assms by (simp_all add: set_getEmptyIndices)
  have others: "\<exists>ix sj. minimax (b[j := Some (otherMark maxP)]) (d + 1) True maxP = Some (ix, sj)
      \<and> ?sc i \<le> sj \<and> (j < i \<longrightarrow> ?sc i < sj)" if "j < 9" "b ! j = None" for j
  proof -
    from that assms have "j \<in> set ?es" by (simp add: set_getEmptyIndices)
    then obtain p where p: "p < length ?es" "j = ?es ! p" by (auto simp: in_set_conv_nth)
    have le: "?sc i \<le> ?sc j" using k(3) p by (simp add: i_def)
    have "?sc i < ?sc j" if "j < i"
    proof -
      from that have "?es ! p < ?es ! k" by (simp add: p(2) i_def)
      with getEmptyIndices_sorted p(1) k(1) have "p < k" by (rule sorted_nth_less)
      with k(4) show ?thesis by (simp add: p(2) i_def)
    qed
    with le child [of j] show ?thesis by blast
  qed
  show "\<exists>i s. minimax b d False maxP = Some (Some i, s)
      \<and> i < 9 \<and> b ! i = None
      \<and> (\<exists>ix. minimax (b[i := Some (otherMark maxP)]) (d + 1) True maxP = Some (ix, s))
      \<and> (\<forall>j < 9. b ! j = None \<longrightarrow>
           (\<exists>ix sj. minimax (b[j := Some (otherMark maxP)]) (d + 1) True maxP = Some (ix, sj)
              \<and> s \<le> sj \<and> (j < i \<longrightarrow> s < sj)))"
    using k(2) cell child [of i] others unfolding i_def [symmetric]
    by (intro exI[of _ i] exI[of _ "?sc i"]) blast
qed

theorem minimax_scores_and_first_best_cell_witness:
  "minimax [Some MarkX, Some MarkX, None, Some MarkO, Some MarkO, None,
            Some MarkX, Some MarkO, Some MarkX] 0 True MarkO = Some (Some 5, 9)
   \<and> (\<exists>ix. minimax ([Some MarkX, Some MarkX, None, Some MarkO, Some MarkO, None,
            Some MarkX, Some MarkO, Some MarkX][5 := Some MarkO]) (0 + 1) False MarkO = Some (ix, 9))
   \<and> (\<exists>ix sj. minimax ([Some MarkX, Some MarkX, None, Some MarkO, Some MarkO, None,
            Some MarkX, Some MarkO, Some MarkX][2 := Some MarkO]) (0 + 1) False MarkO = Some (ix, sj)
         \<and> sj < 9)
   \<and> minimax [Some MarkX, Some MarkO, Some MarkX, None, Some MarkO, None,
            None, Some MarkX, None] 0 False MarkO = Some (Some 6, - 7)
   \<and> (\<exists>ix. minimax ([Some MarkX, Some MarkO, Some MarkX, None, Some MarkO, None,
            None, Some MarkX, None][6 := Some MarkX]) (0 + 1) True MarkO = Some (ix, - 7))
   \<and> (\<exists>ix sj. minimax ([Some MarkX, Some MarkO, Some MarkX, None, Some MarkO, None,
            None, Some MarkX, None][3 := Some MarkX]) (0 + 1) True MarkO = Some (ix, sj)
         \<and> - 7 < sj)
   \<and> minimax [Some MarkX, Some MarkX, None, Some MarkO, Some MarkO, Some MarkO,
            Some MarkX, Some MarkO, Some MarkX] 1 False MarkO = Some (None, 9)
   \<and> minimax [Some MarkX, Some MarkX, None, Some MarkO, Some MarkO, Some MarkO,
            Some MarkX, Some MarkO, Some MarkX] 1 True MarkX = Some (None, - 9)
   \<and> minimax [Some MarkX, Some MarkO, Some MarkX, Some MarkX, Some MarkO, Some MarkO,
            Some MarkO, Some MarkX, Some MarkX] 3 True MarkO = Some (None, 0)"
proof -
  define ex where "ex = [Some MarkX, Some MarkX, None, Some MarkO, Some MarkO, None,
      Some MarkX, Some MarkO, Some MarkX]"
  define mid where "mid = [Some MarkX, Some MarkO, Some MarkX, None, Some MarkO, None,
      None, Some MarkX, None]"
  define won where "won = [Some MarkX, Some MarkX, None, Some MarkO, Some MarkO, Some MarkO,
      Some MarkX, Some MarkO, Some MarkX]"
  define full where "full = [Some MarkX, Some MarkO, Some MarkX, Some MarkX, Some MarkO, Some MarkO,
      Some MarkO, Some MarkX, Some MarkX]"
  have len: "length ex = 9" "length won = 9" "length full = 9" "length mid = 9"
    by (simp_all add: ex_def won_def full_def mid_def)
  have undecided: "checkWinner ex = None \<and> \<not> isBoardFull ex"
    unfolding ex_def by code_simp
  have ev: "minimax ex 0 True MarkO = Some (Some 5, 9)"
    unfolding ex_def by code_simp
  have e2: "ex ! 2 = None" by (simp add: ex_def)
  from minimax_scores_and_first_best_cell [OF len(1), of MarkO 0 True] undecided
  obtain i s where best: "minimax ex 0 True MarkO = Some (Some i, s)"
    "\<exists>ix. minimax (ex[i := Some MarkO]) (0 + 1) False MarkO = Some (ix, s)"
    "\<forall>j < 9. ex ! j = None \<longrightarrow>
       (\<exists>ix sj. minimax (ex[j := Some MarkO]) (0 + 1) False MarkO = Some (ix, sj)
          \<and> sj \<le> s \<and> (j < i \<longrightarrow> sj < s))"
    by blast
  from best(1) ev have i: "i = 5" and s: "s = 9" by simp_all
  from best(3) e2 have "\<exists>ix sj. minimax (ex[2 := Some MarkO]) (0 + 1) False MarkO = Some (ix, sj)
      \<and> sj \<le> s \<and> (2 < i \<longrightarrow> sj < s)" by simp
  then have lower: "\<exists>ix sj. minimax (ex[2 := Some MarkO]) (0 + 1) False MarkO = Some (ix, sj) \<and> sj < 9"
    unfolding i s by auto
  have undecided': "checkWinner mid = None \<and> \<not> isBoardFull mid"
    unfolding mid_def by code_simp
  have ev': "minimax mid 0 False MarkO = Some (Some 6, - 7)"
    unfolding mid_def by code_simp
  have m3: "mid ! 3 = None" by (simp add: mid_def)
  have other: "otherMark MarkO = MarkX" by (simp add: otherMark_def)
  from minimax_scores_and_first_best_cell [OF len(4), of MarkO 0 True] undecided'
  obtain i' s' where worst: "minimax mid 0 False MarkO = Some (Some i', s')"
    "\<exists>ix. minimax (mid[i' := Some MarkX]) (0 + 1) True MarkO = Some (ix, s')"
    "\<forall>j < 9. mid ! j = None \<longrightarrow>
       (\<exists>ix sj. minimax (mid[j := Some MarkX]) (0 + 1) True MarkO = Some (ix, sj)
          \<and> s' \<le> sj \<and> (j < i' \<longrightarrow> s' < sj))"
    unfolding other by blast
  from worst(1) ev' have i': "i' = 6" and s': "s' = - 7" by simp_all
  from worst(3) m3 have "\<exists>ix sj. minimax (mid[3 := Some MarkX]) (0 + 1) True MarkO = Some (ix, sj)
      \<and> s' \<le> sj \<and> (3 < i' \<longrightarrow> s' < sj)" by simp
  then have higher: "\<exists>ix sj. minimax (mid[3 := Some MarkX]) (0 + 1) True MarkO = Some (ix, sj) \<and> - 7 < sj"
    unfolding i' s' by auto
  have w: "checkWinner won = Some MarkO" "checkWinner won = Some (otherMark MarkX)"
    unfolding won_def by code_simp+
  have f: "checkWinner full = None \<and> isBoardFull full"
    unfolding full_def by code_simp
  have t1: "minimax won 1 False MarkO = Some (None, 9)"
    using minimax_scores_and_first_best_cell [OF len(2), of MarkO 1 False] w(1) by simp
  have t2: "minimax won 1 True MarkX = Some (None, - 9)"
    using minimax_scores_and_first_best_cell [OF len(2), of MarkX 1 True] w(2) by simp
  have t3: "minimax full 3 True MarkO = Some (None, 0)"
    using minimax_scores_and_first_best_cell [OF len(3), of MarkO 3 True] f by simp
  from ev best(2) lower ev' worst(2) higher t1 t2 t3 show ?thesis
    unfolding i s i' s' ex_def won_def full_def mid_def by blast
qed

subsection \<open>The medium difficulty\<close>

lemma line_cells:
  assumes "(x, y, z) \<in> set winningCombinations"
  shows "x < 9 \<and> y < 9 \<and> z < 9 \<and> x \<noteq> y \<and> y \<noteq> z \<and> x \<noteq> z"
  using assms by (auto simp: winningCombinations_def)

lemma criticalCell_Some:
  assumes "criticalCell b m 2 (x, y, z) = Some i"
  shows "completable b m (x, y, z) \<and> i \<in> {x, y, z} \<and> b ! i = None"
proof -
  from assms have c: "completable b m (x, y, z)"
    by (simp add: criticalCell_def completable_def Let_def split: if_splits)
  then have "find (\<lambda>i. b ! i = None) [x, y, z] = Some i"
    using assms by (simp add: criticalCell_def completable_def Let_def)
  then have "i \<in> {x, y, z} \<and> b ! i = None"
    by (auto split: if_splits)
  with c show ?thesis by simp
qed

lemma criticalCell_None:
  assumes "criticalCell b m 2 (x, y, z) = None"
  shows "\<not> completable b m (x, y, z)"
proof
  assume c: "completable b m (x, y, z)"
  then have "find (\<lambda>i. b ! i = None) [x, y, z] = None"
    using assms by (simp add: criticalCell_def completable_def Let_def)
  then have "b ! x \<noteq> None \<and> b ! y \<noteq> None \<and> b ! z \<noteq> None"
    by (auto split: if_splits)
  with c show False by (simp add: completable_def)
qed

lemma findCriticalMove_scan_Some:
  assumes "findCriticalMove_scan ws b m 2 = Some i"
  shows "\<exists>l \<in> set ws. completable b m l \<and> (case l of (x, y, z) \<Rightarrow> i \<in> {x, y, z}) \<and> b ! i = None"
  using assms
proof (induction ws)
  case Nil
  then show ?case by simp
next
  case (Cons l ws)
  obtain x y z where l: "l = (x, y, z)" by (cases l) auto
  show ?case
  proof (cases "criticalCell b m 2 l")
    case None
    with Cons show ?thesis by auto
  next
    case (Some i')
    with Cons.prems have "i' = i" by simp
    with Some criticalCell_Some [of b m x y z i] show ?thesis by (simp add: l)
  qed
qed

lemma findCriticalMove_scan_None:
  assumes "findCriticalMove_scan ws b m 2 = None"
  shows "\<forall>l \<in> set ws. \<not> completable b m l"
  using assms
proof (induction ws)
  case Nil
  then show ?case by simp
next
  case (Cons l ws)
  obtain x y z where l: "l = (x, y, z)" by (cases l) auto
  from Cons.prems have n: "criticalCell b m 2 l = None"
    and r: "findCriticalMove_scan ws b m 2 = None"
    by (simp_all split: option.splits)
  from n have "\<not> completable b m l" unfolding l by (rule criticalCell_None)
  with Cons.IH [OF r] show ?case by simp
qed

lemma completing_move_wins:
  assumes "length b = 9" and "(x, y, z) \<in> set winningCombinations" and "completable b m (x, y, z)"
    and "i \<in> {x, y, z}" and "b ! i = None"
  shows "determineWinner (b[i := Some m]) m"
proof -
  from line_cells [OF assms(2)] have d: "x < 9" "y < 9" "z < 9" "x \<noteq> y" "y \<noteq> z" "x \<noteq> z"
    by simp_all
  have "lineFull (b[i := Some m]) m (x, y, z)"
    using assms(1,3,4,5) d
    by (auto simp: lineFull_def completable_def nth_list_update split: if_splits)
  with assms(2) show ?thesis unfolding determineWinner_iff by blast
qed

lemma blocked_line:
  assumes "length b = 9" and "(x, y, z) \<in> set winningCombinations" and "i \<in> {x, y, z}"
    and "m \<noteq> m'"
  shows "\<not> completable (b[i := Some m']) m (x, y, z)"
proof -
  from line_cells [OF assms(2)] have d: "x < 9" "y < 9" "z < 9" "x \<noteq> y" "y \<noteq> z" "x \<noteq> z"
    by simp_all
  show ?thesis
    using assms(1,3,4) d
    by (auto simp: completable_def nth_list_update split: if_splits)
qed

lemma chooseMove_medium_own:
  assumes "findCriticalMove b MarkO 2 = Some i"
  shows "chooseMove Medium b rnd = Some i"
  using assms by (simp add: chooseMove_def)

lemma chooseMove_medium_block:
  assumes "findCriticalMove b MarkO 2 = None" and "findCriticalMove b MarkX 2 = Some i"
  shows "chooseMove Medium b rnd = Some i"
  using assms by (simp add: chooseMove_def)

text \<open>
  Claim C5. On a board of nine cells where some win-line holds exactly two O and exactly
  one empty cell, the medium difficulty chooses the empty cell of such a line, and O on
  that cell completes the line. Where no line is such for O but one is for X, it chooses
  the empty cell of such a line of X, after which that line can no longer be completed.
  The centre, the corners and the sides are looked at only when neither is the case.
\<close>

theorem medium_completes_then_blocks:
  assumes "length b = 9"
  shows "((\<exists>l \<in> set winningCombinations. completable b MarkO l) \<longrightarrow>
            (\<exists>i x y z. chooseMove Medium b rnd = Some i \<and> (x, y, z) \<in> set winningCombinations
               \<and> completable b MarkO (x, y, z) \<and> i \<in> {x, y, z} \<and> b ! i = None
               \<and> determineWinner (b[i := Some MarkO]) MarkO))
       \<and> (\<not> (\<exists>l \<in> set winningCombinations. completable b MarkO l)
            \<and> (\<exists>l \<in> set winningCombinations. completable b MarkX l) \<longrightarrow>
            (\<exists>i x y z. chooseMove Medium b rnd = Some i \<and> (x, y, z) \<in> set winningCombinations
               \<and> completable b MarkX (x, y, z) \<and> i \<in> {x, y, z} \<and> b ! i = None
               \<and> \<not> completable (b[i := Some MarkO]) MarkX (x, y, z)))"
proof (intro conjI impI)
  assume "\<exists>l \<in> set winningCombinations. completable b MarkO l"
  then have "findCriticalMove b MarkO 2 \<noteq> None"
    unfolding findCriticalMove_def using findCriticalMove_scan_None by blast
  then obtain i where i: "findCriticalMove b MarkO 2 = Some i" by auto
  then obtain l where l: "l \<in> set winningCombinations" "completable b MarkO l"
    "case l of (x, y, z) \<Rightarrow> i \<in> {x, y, z}" "b ! i = None"
    unfolding findCriticalMove_def using findCriticalMove_scan_Some by blast
  obtain x y z where xyz: "l = (x, y, z)" by (cases l) auto
  have "determineWinner (b[i := Some MarkO]) MarkO"
    using assms l unfolding xyz by (intro completing_move_wins [of b x y z]) simp_all
  with chooseMove_medium_own [OF i, of rnd] l
  show "\<exists>i x y z. chooseMove Medium b rnd = Some i \<and> (x, y, z) \<in> set winningCombinations
      \<and> completable b MarkO (x, y, z) \<and> i \<in> {x, y, z} \<and> b ! i = None
      \<and> determineWinner (b[i := Some MarkO]) MarkO"
    unfolding xyz by (intro exI[of _ i] exI[of _ x] exI[of _ y] exI[of _ z]) simp
next
  assume a: "\<not> (\<exists>l \<in> set winningCombinations. completable b MarkO l)
      \<and> (\<exists>l \<in> set winningCombinations. completable b MarkX l)"
  have own: "findCriticalMove b MarkO 2 = None"
  proof (cases "findCriticalMove b MarkO 2")
    case None then show ?thesis .
  next
    case (Some i)
    then have "\<exists>l \<in> set winningCombinations. completable b MarkO l"
      unfolding findCriticalMove_def using findCriticalMove_scan_Some by blast
    with a show ?thesis by blast
  qed
  from a have "findCriticalMove b MarkX 2 \<noteq> None"
    unfolding findCriticalMove_def using findCriticalMove_scan_None by blast
  then obtain i where i: "findCriticalMove b MarkX 2 = Some i" by auto
  then obtain l where l: "l \<in> set winningCombinations" "completable b MarkX l"
    "case l of (x, y, z) \<Rightarrow> i \<in> {x, y, z}" "b ! i = None"
    unfolding findCriticalMove_def using findCriticalMove_scan_Some by blast
  obtain x y z where xyz: "l = (x, y, z)" by (cases l) auto
  have "\<not> completable (b[i := Some MarkO]) MarkX (x, y, z)"
    using assms l unfolding xyz by (intro blocked_line) simp_all
  with chooseMove_medium_block [OF own i, of rnd] l
  show "\<exists>i x y z. chooseMove Medium b rnd = Some i \<and> (x, y, z) \<in> set winningCombinations
      \<and> completable b MarkX (x, y, z) \<and> i \<in> {x, y, z} \<and> b ! i = None
      \<and> \<not> completable (b[i := Some MarkO]) MarkX (x, y, z)"
    unfolding xyz by (intro exI[of _ i] exI[of _ x] exI[of _ y] exI[of _ z]) simp
qed

theorem medium_completes_then_blocks_witness:
  "chooseMove Medium [Some MarkO, Some MarkO, None, Some MarkX, Some MarkX, None, None, None, None] 0
     = Some 2
   \<and> determineWinner
       ([Some MarkO, Some MarkO, None, Some MarkX, Some MarkX, None, None, None, None][2 := Some MarkO])
       MarkO
   \<and> chooseMove Medium [Some MarkX, None, None, Some MarkO, Some MarkX, None, None, None, None] 0
     = Some 8"
proof -
  define ex1 where "ex1 = [Some MarkO, Some MarkO, None, Some MarkX, Some MarkX, None, None, None, None]"
  define ex2 where "ex2 = [Some MarkX, None, None, Some MarkO, Some MarkX, None, None, None, None]"
  have len: "length ex1 = 9" "length ex2 = 9" by (simp_all add: ex1_def ex2_def)
  have own1: "\<exists>l \<in> set winningCombinations. completable ex1 MarkO l"
    unfolding ex1_def by code_simp
  have ev1: "chooseMove Medium ex1 0 = Some 2"
    unfolding ex1_def by code_simp
  have own2: "\<not> (\<exists>l \<in> set winningCombinations. completable ex2 MarkO l)"
    unfolding ex2_def by code_simp
  have opp2: "\<exists>l \<in> set winningCombinations. completable ex2 MarkX l"
    unfolding ex2_def by code_simp
  have lines2: "\<forall>l \<in> set winningCombinations. completable ex2 MarkX l \<longrightarrow> l = (0, 4, 8)"
    unfolding ex2_def by code_simp
  have cells2: "ex2 ! 0 \<noteq> None" "ex2 ! 4 \<noteq> None" by (simp_all add: ex2_def)
  from medium_completes_then_blocks [OF len(1), of 0] own1
  obtain i where "chooseMove Medium ex1 0 = Some i" "determineWinner (ex1[i := Some MarkO]) MarkO"
    by blast
  with ev1 have w1: "determineWinner (ex1[2 := Some MarkO]) MarkO" by simp
  from medium_completes_then_blocks [OF len(2), of 0] own2 opp2
  obtain i x y z where b: "chooseMove Medium ex2 0 = Some i" "(x, y, z) \<in> set winningCombinations"
    "completable ex2 MarkX (x, y, z)" "i \<in> {x, y, z}" "ex2 ! i = None"
    by blast
  from lines2 b(2,3) have "(x, y, z) = (0, 4, 8)" by blast
  with b(4,5) cells2 have "i = 8" by auto
  with b(1) ev1 w1 show ?thesis unfolding ex1_def ex2_def by simp
qed

section \<open>Joining a lobby\<close>

text \<open>
  Claim C7 fails on the code. Three sockets join the same lobby one after the other, none
  leaving and none asking for a mark: the first is given X, the second O, and the third
  is given O as well and is sent the room with \<^verbatim>\<open>yourMark: "O"\<close> before the message that
  the room is full. The lobby then has three assigned marks, and after X has moved the
  third socket's move is accepted as O's.
\<close>

theorem third_joiner_is_assigned_O:
  "dataMark (socketsData (serve [JoinLobby 1 (Some ''a'') None, JoinLobby 2 (Some ''a'') None,
       JoinLobby 3 (Some ''a'') None]) 1) = Some MarkX
   \<and> dataMark (socketsData (serve [JoinLobby 1 (Some ''a'') None, JoinLobby 2 (Some ''a'') None,
       JoinLobby 3 (Some ''a'') None]) 2) = Some MarkO
   \<and> dataMark (socketsData (serve [JoinLobby 1 (Some ''a'') None, JoinLobby 2 (Some ''a'') None,
       JoinLobby 3 (Some ''a'') None]) 3) = Some MarkO
   \<and> adapterRooms (serve [JoinLobby 1 (Some ''a'') None, JoinLobby 2 (Some ''a'') None,
       JoinLobby 3 (Some ''a'') None]) ''a'' = [3, 2, 1]
   \<and> ToSocket 3 (RoomState (newRoomState\<lparr>players := [3, 2, 1]\<rparr>) ''a'' (Some MarkO))
       \<in> set (emitted (serve [JoinLobby 1 (Some ''a'') None, JoinLobby 2 (Some ''a'') None,
           JoinLobby 3 (Some ''a'') None]))
   \<and> last (emitted (serve [JoinLobby 1 (Some ''a'') None, JoinLobby 2 (Some ''a'') None,
       JoinLobby 3 (Some ''a'') None]))
     = ToSocket 3 (ErrorMsg ''Room is full (2 players). Spectators not allowed.'')
   \<and> map_option board (rooms (serve [JoinLobby 1 (Some ''a'') None, JoinLobby 2 (Some ''a'') None,
       JoinLobby 3 (Some ''a'') None, MakeMove 1 (IntIndex 0), MakeMove 3 (IntIndex 4)]) ''a'')
     = Some [Some MarkX, None, None, None, Some MarkO, None, None, None, None]"
  by (simp add: serve_def joinLobby_def makeMove_def placeMark_def getRoom_def initialServer_def
      newRoomState_def trim_def isWhiteSpace_def Let_def checkWinner_def winningCombinations_def
      isDraw_def eval_nat_numeral)

end
